theory Spec2Isabelle
  imports Main "HOL-Library.Word" "HOL-Library.Sublist" "HOL-Library.Multiset"
begin

unbundle bit_operations_syntax

section \<open>Error codes and the session registry\<close>

text \<open>
  The functions of \<^verbatim>\<open>ust-metadata.cpp\<close> return 0 on success and a negative errno value
  on failure. The model returns \<open>None\<close> for 0 and \<open>Some e\<close> for the error:
  \<open>EINVAL\<close> is \<^verbatim>\<open>-EINVAL\<close>, \<open>ENOMEM\<close> is \<^verbatim>\<open>-ENOMEM\<close>, \<open>EOVERFLOW\<close> is \<^verbatim>\<open>-EOVERFLOW\<close>,
  \<open>ENOENT\<close> is \<^verbatim>\<open>-ENOENT\<close>, \<open>EWRITE\<close> is the \<^verbatim>\<open>-1\<close> of \<^verbatim>\<open>metadata_file_append\<close>, and
  \<open>EABORT\<close> is a failed \<^verbatim>\<open>LTTNG_ASSERT\<close>.
\<close>

datatype error = EINVAL | ENOMEM | EOVERFLOW | ENOENT | EWRITE | EABORT

type_synonym ret = "error option"

datatype byte_order_t = BIG_ENDIAN | LITTLE_ENDIAN

text \<open>
  An enumeration registered with the session (\<^verbatim>\<open>ust_registry_enum\<close>). An entry
  (\<^verbatim>\<open>lttng_ust_ctl_enum_entry\<close>) has two bounds, each a 64-bit value with its own
  signedness member, a label, and the option bit
  \<^verbatim>\<open>LTTNG_UST_CTL_UST_ENUM_ENTRY_OPTION_IS_AUTO\<close>. The signedness member is a byte
  (\<^verbatim>\<open>uint8_t\<close> in the declaration of \<^verbatim>\<open>lttng_ust_ctl_enum_value\<close>, which is not in this file):
  the code tests it against zero to choose the format of a bound, and compares the two
  members of an entry with \<^verbatim>\<open>==\<close>, so the values 1 and 2 both mean signed and are not equal.
\<close>

record lttng_ust_ctl_enum_value =
  val :: "64 word"
  signedness :: "8 word"

record lttng_ust_ctl_enum_entry =
  start :: lttng_ust_ctl_enum_value
  end_v :: lttng_ust_ctl_enum_value
  label :: string
  is_auto :: bool

record ust_registry_enum =
  enum_name :: string
  enum_id :: "64 word"
  entries :: "lttng_ust_ctl_enum_entry list"

text \<open>
  The part of \<^verbatim>\<open>ust_registry_session\<close> that the metadata code reads and writes.
  \<open>metadata\<close> is the heap block \<^verbatim>\<open>_metadata\<close> (a C string is the list of its bytes),
  \<open>metadata_alloc_len\<close> and \<open>metadata_len\<close> are the \<^verbatim>\<open>size_t\<close> fields of the same names,
  \<open>metadata_fd\<close> is the descriptor of the persisted copy (negative: none) and
  \<open>metadata_file\<close> the bytes written to it so far.

  The last two fields are the environment: \<open>heap_script\<close> holds the outcomes of the
  coming allocator calls (\<^verbatim>\<open>realloc\<close>, \<^verbatim>\<open>vasprintf\<close>), \<open>True\<close> for success, and
  \<open>write_script\<close> the number of bytes each coming \<^verbatim>\<open>lttng_write\<close> manages to write.
  Past the end of a script every call succeeds in full.
\<close>

record ust_registry_session =
  metadata :: string
  metadata_alloc_len :: nat
  metadata_len :: nat
  metadata_fd :: int
  metadata_file :: string
  byte_order :: byte_order_t
  enums :: "ust_registry_enum list"
  heap_script :: "bool list"
  write_script :: "nat list"

definition heap_alloc :: "ust_registry_session \<Rightarrow> bool \<times> ust_registry_session" where
  "heap_alloc s =
     (case heap_script s of
        [] \<Rightarrow> (True, s)
      | ok # rest \<Rightarrow> (ok, s\<lparr>heap_script := rest\<rparr>))"

text \<open>
  \<^verbatim>\<open>realloc\<close> keeps the old bytes and leaves the new ones indeterminate: the model puts
  the marker \<open>uninit\<close>, which is not the zero byte, so that zeroes in the new part are the
  work of \<^verbatim>\<open>memset\<close>.
\<close>

definition uninit :: char where
  "uninit = CHR 0xAA"

definition realloc :: "string \<Rightarrow> nat \<Rightarrow> string" where
  "realloc buf n = take n buf @ replicate (n - length buf) uninit"

definition memset :: "string \<Rightarrow> nat \<Rightarrow> char \<Rightarrow> nat \<Rightarrow> string" where
  "memset buf off c n = take off buf @ replicate n c @ drop (off + n) buf"

definition memcpy :: "string \<Rightarrow> nat \<Rightarrow> string \<Rightarrow> string" where
  "memcpy buf off src = take off buf @ src @ drop (off + length src) buf"

section \<open>The growable buffer\<close>

definition UINT32_MAX :: nat where
  "UINT32_MAX = 2 ^ 32 - 1"

text \<open>
  Modelled from the spec: \<^verbatim>\<open>lttng_fls\<close> is declared outside the files at hand. The growth
  target of the buffer is the next power of two, which makes \<^verbatim>\<open>lttng_fls\<close> the usual
  find-last-set: the 1-based position of the highest set bit, and 0 for 0.
\<close>

fun lttng_fls :: "nat \<Rightarrow> nat" where
  "lttng_fls n = (if n = 0 then 0 else Suc (lttng_fls (n div 2)))"

declare lttng_fls.simps [simp del]

text \<open>
  \<^verbatim>\<open>get_count_order\<close> takes an \<^verbatim>\<open>unsigned int\<close>: the argument is cut to 32 bits and
  \<^verbatim>\<open>count - 1\<close> wraps. \<open>None\<close> is the failed assertion \<^verbatim>\<open>order >= 0\<close>.
\<close>

definition get_count_order :: "nat \<Rightarrow> nat option" where
  "get_count_order n =
     (let count = n mod 2 ^ 32;
          order = int (lttng_fls count) - 1;
          order = (if count AND ((count + 2 ^ 32 - 1) mod 2 ^ 32) \<noteq> 0 then order + 1 else order)
      in if order \<ge> 0 then Some (nat order) else None)"

text \<open>
  \<^verbatim>\<open>metadata_reserve\<close> returns the offset (\<open>Inr\<close>) or the error (\<open>Inl\<close>). The sums and the
  shift are \<^verbatim>\<open>size_t\<close> operations (64 bits), \<^verbatim>\<open>1U << order\<close> is a 32-bit one.
\<close>

definition metadata_reserve ::
  "ust_registry_session \<Rightarrow> nat \<Rightarrow> (error + nat) \<times> ust_registry_session" where
  "metadata_reserve s len =
     (let new_len = (metadata_len s + len) mod 2 ^ 64;
          new_alloc_len = new_len;
          old_alloc_len = metadata_alloc_len s
      in if new_alloc_len > UINT32_MAX div 2 then (Inl EINVAL, s)
         else if (old_alloc_len * 2) mod 2 ^ 64 > UINT32_MAX div 2 then (Inl EINVAL, s)
         else if new_alloc_len > old_alloc_len then
           (case get_count_order new_alloc_len of
              None \<Rightarrow> (Inl EABORT, s)
            | Some order \<Rightarrow>
                (let new_alloc_len = max (2 ^ order mod 2 ^ 32) ((old_alloc_len * 2) mod 2 ^ 64);
                     (ok, s1) = heap_alloc s
                 in if \<not> ok then (Inl ENOMEM, s1)
                    else
                      (let newptr = realloc (metadata s1) new_alloc_len;
                           s2 = s1\<lparr>metadata :=
                                     memset newptr old_alloc_len (CHR 0x00)
                                       (new_alloc_len - old_alloc_len),
                                   metadata_alloc_len := new_alloc_len\<rparr>
                       in (Inr (metadata_len s2),
                           s2\<lparr>metadata_len := (metadata_len s2 + len) mod 2 ^ 64\<rparr>))))
         else (Inr (metadata_len s), s\<lparr>metadata_len := (metadata_len s + len) mod 2 ^ 64\<rparr>))"

text \<open>Successive reservations, each on the state the one before left.\<close>

fun reserve_seq ::
  "ust_registry_session \<Rightarrow> nat list \<Rightarrow> (error + nat) list \<times> ust_registry_session" where
  "reserve_seq s [] = ([], s)"
| "reserve_seq s (len # lens) =
     (let (r, s1) = metadata_reserve s len;
          (rs, s2) = reserve_seq s1 lens
      in (r # rs, s2))"

text \<open>
  The invariant of the buffer: the block has the allocation length, the write cursor is
  inside it and below \<open>2 ^ 31\<close>, and the allocation length is at most \<open>2 ^ 31\<close>.
\<close>

definition session_inv :: "ust_registry_session \<Rightarrow> bool" where
  "session_inv s \<longleftrightarrow>
     length (metadata s) = metadata_alloc_len s \<and>
     metadata_len s \<le> metadata_alloc_len s \<and>
     metadata_alloc_len s \<le> 2 ^ 31 \<and>
     metadata_len s < 2 ^ 31"

text \<open>The session as created: no buffer yet, no persisted copy, nothing registered.\<close>

definition fresh_session :: ust_registry_session where
  "fresh_session =
     \<lparr>metadata = [], metadata_alloc_len = 0, metadata_len = 0, metadata_fd = -1,
      metadata_file = [], byte_order = LITTLE_ENDIAN, enums = [],
      heap_script = [], write_script = []\<rparr>"

text \<open>\<open>succeeded r\<close>: the reservation returned an offset.\<close>

definition succeeded :: "error + nat \<Rightarrow> bool" where
  "succeeded r = (case r of Inl _ \<Rightarrow> False | Inr _ \<Rightarrow> True)"

text \<open>
  A session holding \<open>2 ^ 29 + 1\<close> bytes: its allocation length is \<open>2 ^ 30\<close>, which is
  what one reservation of that many bytes on the session as created leaves.
\<close>

definition half_gib_session :: ust_registry_session where
  "half_gib_session =
     \<lparr>metadata = replicate (2 ^ 30) (CHR 0x00), metadata_alloc_len = 2 ^ 30,
      metadata_len = 2 ^ 29 + 1, metadata_fd = -1,
      metadata_file = [], byte_order = LITTLE_ENDIAN, enums = [],
      heap_script = [], write_script = []\<rparr>"


section \<open>Text emission\<close>

text \<open>
  Characters that the format strings of the source write with an escape: the newline,
  the tab, the double quote and the backslash.
\<close>

definition NL :: string where
  "NL = [CHR 0x0A]"

definition TAB :: string where
  "TAB = [CHR 0x09]"

definition DQUOTE :: string where
  "DQUOTE = [CHR 0x22]"

definition BACKSLASH :: string where
  "BACKSLASH = [CHR 0x5C]"

text \<open>The conversions \<^verbatim>\<open>%u\<close> and \<^verbatim>\<open>%d\<close> of \<^verbatim>\<open>printf\<close>: decimal, no padding.\<close>

definition digit :: "nat \<Rightarrow> char" where
  "digit d = ''0123456789'' ! d"

fun fmt_u :: "nat \<Rightarrow> string" where
  "fmt_u n = (if n < 10 then [digit n] else fmt_u (n div 10) @ [digit (n mod 10)])"

declare fmt_u.simps [simp del]

definition fmt_d :: "int \<Rightarrow> string" where
  "fmt_d i = (if i < 0 then CHR ''-'' # fmt_u (nat (- i)) else fmt_u (nat i))"

definition INT_MAX :: nat where
  "INT_MAX = 2 ^ 31 - 1"

definition CHAR_BIT :: nat where
  "CHAR_BIT = 8"

text \<open>
  \<^verbatim>\<open>metadata_file_append\<close>. Modelled from the spec: \<^verbatim>\<open>lttng_write\<close> is declared outside the
  files at hand; it returns how many bytes it wrote, or a negative value. The value comes
  from \<open>write_script\<close>, and the persisted copy receives that many bytes of the text.
\<close>

definition lttng_write :: "ust_registry_session \<Rightarrow> string \<Rightarrow> int \<times> ust_registry_session" where
  "lttng_write s str =
     (case write_script s of
        [] \<Rightarrow> (int (length str), s\<lparr>metadata_file := metadata_file s @ str\<rparr>)
      | n # rest \<Rightarrow>
          (let written = min (int n) (int (length str))
           in (written,
               s\<lparr>metadata_file := metadata_file s @ take (nat written) str,
                 write_script := rest\<rparr>)))"

definition metadata_file_append ::
  "ust_registry_session \<Rightarrow> string \<Rightarrow> ret \<times> ust_registry_session" where
  "metadata_file_append s str =
     (if metadata_fd s < 0 then (None, s)
      else
        (let (written, s1) = lttng_write s str
         in if written \<noteq> int (length str) then (Some EWRITE, s1) else (None, s1)))"

text \<open>
  \<^verbatim>\<open>lttng_metadata_printf\<close>. The argument \<open>str\<close> is the text that \<^verbatim>\<open>vasprintf\<close> renders from
  the format string and its arguments; \<^verbatim>\<open>vasprintf\<close> allocates, and fails too when the text
  is longer than \<^verbatim>\<open>INT_MAX\<close>, the largest value it can return.
\<close>

definition lttng_metadata_printf ::
  "ust_registry_session \<Rightarrow> string \<Rightarrow> ret \<times> ust_registry_session" where
  "lttng_metadata_printf s str =
     (let (ok, s1) = heap_alloc s
      in if \<not> ok \<or> length str > INT_MAX then (Some ENOMEM, s1)
         else
           (let len = length str
            in case metadata_reserve s1 len of
                 (Inl e, s2) \<Rightarrow> (Some e, s2)
               | (Inr offset, s2) \<Rightarrow>
                   (let s3 = s2\<lparr>metadata := memcpy (metadata s2) offset str\<rparr>
                    in case metadata_file_append s3 str of
                         (Some e, s4) \<Rightarrow> (Some e, s4)
                       | (None, s4) \<Rightarrow> (None, s4))))"

text \<open>
  The pattern \<^verbatim>\<open>ret = f(...); if (ret) goto end;\<close> repeated: run the steps in order and
  stop at the first one that fails.
\<close>

fun steps ::
  "(ust_registry_session \<Rightarrow> ret \<times> ust_registry_session) list \<Rightarrow>
   ust_registry_session \<Rightarrow> ret \<times> ust_registry_session" where
  "steps [] s = (None, s)"
| "steps (f # fs) s =
     (case f s of
        (Some e, s1) \<Rightarrow> (Some e, s1)
      | (None, s1) \<Rightarrow> steps fs s1)"

fun print_tabs :: "ust_registry_session \<Rightarrow> nat \<Rightarrow> ret \<times> ust_registry_session" where
  "print_tabs s 0 = (None, s)"
| "print_tabs s (Suc nesting) =
     (case lttng_metadata_printf s TAB of
        (Some e, s1) \<Rightarrow> (Some e, s1)
      | (None, s1) \<Rightarrow> print_tabs s1 nesting)"

text \<open>
  \<^verbatim>\<open>sanitize_ctf_identifier\<close>: the name is a C string held in an array of
  \<^verbatim>\<open>LTTNG_UST_ABI_SYM_NAME_LEN\<close> bytes, so the copy is the whole name.
\<close>

definition sanitize_ctf_identifier :: "string \<Rightarrow> string" where
  "sanitize_ctf_identifier inp =
     map (\<lambda>c. if c = CHR ''.'' \<or> c = CHR ''$'' \<or> c = CHR '':'' then CHR ''_'' else c) inp"

text \<open>\<^verbatim>\<open>print_escaped_ctf_string\<close>: one character of the string at a time.\<close>

fun print_escaped_ctf_string ::
  "ust_registry_session \<Rightarrow> string \<Rightarrow> ret \<times> ust_registry_session" where
  "print_escaped_ctf_string s [] = (None, s)"
| "print_escaped_ctf_string s (cur # rest) =
     (case (if cur = CHR 0x0A then lttng_metadata_printf s (BACKSLASH @ ''n'')
            else if cur = CHR 0x5C \<or> cur = CHR 0x22 then
              (case lttng_metadata_printf s BACKSLASH of
                 (Some e, s1) \<Rightarrow> (Some e, s1)
               | (None, s1) \<Rightarrow> lttng_metadata_printf s1 [cur])
            else lttng_metadata_printf s [cur]) of
        (Some e, s2) \<Rightarrow> (Some e, s2)
      | (None, s2) \<Rightarrow> print_escaped_ctf_string s2 rest)"

section \<open>Field descriptors\<close>

datatype lttng_ust_ctl_string_encodings =
  lttng_ust_ctl_encode_none | lttng_ust_ctl_encode_UTF8 | lttng_ust_ctl_encode_ASCII

text \<open>
  The numeric members are \<^verbatim>\<open>uint32_t\<close> or \<^verbatim>\<open>uint16_t\<close> values, printed with \<^verbatim>\<open>%u\<close>;
  \<open>int_reverse_byte_order\<close> is read as a truth value.
\<close>

record lttng_ust_ctl_integer_type =
  int_size :: nat
  int_alignment :: nat
  int_signedness :: nat
  int_encoding :: lttng_ust_ctl_string_encodings
  int_base :: nat
  int_reverse_byte_order :: bool

record lttng_ust_ctl_float_type =
  exp_dig :: nat
  mant_dig :: nat
  float_alignment :: nat
  float_reverse_byte_order :: bool

text \<open>
  The element type of a legacy array or sequence (\<^verbatim>\<open>lttng_ust_ctl_basic_type\<close>): a tag and
  a union, of which the code reads the integer member only.
\<close>

datatype lttng_ust_ctl_basic_type =
  basic_integer lttng_ust_ctl_integer_type
  | basic_enum string "64 word" lttng_ust_ctl_integer_type
  | basic_string lttng_ust_ctl_string_encodings
  | basic_float lttng_ust_ctl_float_type

text \<open>
  \<^verbatim>\<open>lttng_ust_ctl_type\<close>: the tag \<^verbatim>\<open>atype\<close> with the member of the union that belongs to it.
  The arguments are, in order: for an enumeration its name, id and (legacy) container
  type; for a legacy array the element type and the length; for a legacy sequence the
  integer type of the length, which the code reads without looking at its tag, and the
  element type; for a variant the number of choices, the tag name and (nestable) the
  alignment; for a structure the number of fields and (nestable) the alignment; for a
  nestable array the length and the alignment; for a nestable sequence the name of the
  length field and the alignment. \<open>lttng_ust_ctl_atype_other\<close> is any other tag value.
\<close>

datatype lttng_ust_ctl_type =
  lttng_ust_ctl_atype_integer lttng_ust_ctl_integer_type
  | lttng_ust_ctl_atype_enum string "64 word" lttng_ust_ctl_integer_type
  | lttng_ust_ctl_atype_float lttng_ust_ctl_float_type
  | lttng_ust_ctl_atype_array lttng_ust_ctl_basic_type nat
  | lttng_ust_ctl_atype_array_nestable nat nat
  | lttng_ust_ctl_atype_sequence lttng_ust_ctl_integer_type lttng_ust_ctl_basic_type
  | lttng_ust_ctl_atype_sequence_nestable string nat
  | lttng_ust_ctl_atype_string lttng_ust_ctl_string_encodings
  | lttng_ust_ctl_atype_variant nat string
  | lttng_ust_ctl_atype_variant_nestable nat string nat
  | lttng_ust_ctl_atype_struct nat
  | lttng_ust_ctl_atype_struct_nestable nat nat
  | lttng_ust_ctl_atype_enum_nestable string "64 word"
  | lttng_ust_ctl_atype_other nat

record lttng_ust_ctl_field =
  field_name :: string
  field_type :: lttng_ust_ctl_type

text \<open>What the walker returns: the result, the session and the cursor \<^verbatim>\<open>*iter_field\<close>.\<close>

type_synonym walk = "ret \<times> ust_registry_session \<times> nat"

definition bo_be :: string where
  "bo_be = '' byte_order = be;''"

definition bo_le :: string where
  "bo_le = '' byte_order = le;''"

definition bo_native :: string where
  "bo_native = ''''"

definition bo_reverse :: "ust_registry_session \<Rightarrow> string" where
  "bo_reverse s = (if byte_order s = BIG_ENDIAN then bo_le else bo_be)"

definition encoding_name :: "lttng_ust_ctl_string_encodings \<Rightarrow> string" where
  "encoding_name e =
     (if e = lttng_ust_ctl_encode_none then ''none''
      else if e = lttng_ust_ctl_encode_UTF8 then ''UTF8'' else ''ASCII'')"

text \<open>
  The text \<^verbatim>\<open>integer { size = %u; align = %u; signed = %u; encoding = %s; base = %u;%s }\<close>,
  which six format strings of the walker start with.
\<close>

definition integer_decl :: "ust_registry_session \<Rightarrow> lttng_ust_ctl_integer_type \<Rightarrow> string" where
  "integer_decl s t =
     ''integer { size = '' @ fmt_u (int_size t) @ ''; align = '' @ fmt_u (int_alignment t) @
     ''; signed = '' @ fmt_u (int_signedness t) @ ''; encoding = '' @
     encoding_name (int_encoding t) @ ''; base = '' @ fmt_u (int_base t) @ '';'' @
     (if int_reverse_byte_order t then bo_reverse s else bo_native) @ '' }''"

text \<open>The zero-size structure that carries an alignment: \<^verbatim>\<open>struct { } align(%u) _%s_padding;\<close>.\<close>

definition padding_decl :: "nat \<Rightarrow> string \<Rightarrow> string" where
  "padding_decl alignment name =
     ''struct { } align('' @ fmt_u ((alignment * CHAR_BIT) mod 2 ^ 32) @ '') _'' @ name @
     ''_padding;'' @ NL"

section \<open>Enumerations\<close>

text \<open>
  Modelled from the spec: \<^verbatim>\<open>ust_registry_lookup_enum_by_id\<close> is declared outside the files
  at hand. The enumeration is looked up by name and id, and may be absent.
\<close>

definition ust_registry_lookup_enum_by_id ::
  "ust_registry_session \<Rightarrow> string \<Rightarrow> 64 word \<Rightarrow> ust_registry_enum option" where
  "ust_registry_lookup_enum_by_id s nm eid =
     find (\<lambda>e. enum_name e = nm \<and> enum_id e = eid) (enums s)"

text \<open>The loop over the characters of an entry's label.\<close>

fun print_enum_label :: "ust_registry_session \<Rightarrow> string \<Rightarrow> ret \<times> ust_registry_session" where
  "print_enum_label s [] = (None, s)"
| "print_enum_label s (c # rest) =
     (case (if c = CHR 0x22 then lttng_metadata_printf s (BACKSLASH @ DQUOTE)
            else if c = CHR 0x5C then lttng_metadata_printf s (BACKSLASH @ BACKSLASH)
            else lttng_metadata_printf s [c]) of
        (Some e, s1) \<Rightarrow> (Some e, s1)
      | (None, s1) \<Rightarrow> print_enum_label s1 rest)"

text \<open>
  A bound of an entry, under \<^verbatim>\<open>PRId64\<close> when its signedness member is not zero and
  \<^verbatim>\<open>PRIu64\<close> when it is.
\<close>

definition fmt_enum_value :: "lttng_ust_ctl_enum_value \<Rightarrow> string" where
  "fmt_enum_value v = (if signedness v \<noteq> 0 then fmt_d (sint (val v)) else fmt_u (unat (val v)))"

text \<open>The body of the loop over the entries, for one entry.\<close>

definition print_enum_entry ::
  "ust_registry_session \<Rightarrow> lttng_ust_ctl_enum_entry \<Rightarrow> nat \<Rightarrow> ret \<times> ust_registry_session" where
  "print_enum_entry s entry nesting =
     steps
       [\<lambda>s. print_tabs s nesting,
        \<lambda>s. lttng_metadata_printf s DQUOTE,
        \<lambda>s. print_enum_label s (label entry),
        \<lambda>s. lttng_metadata_printf s DQUOTE,
        \<lambda>s. if is_auto entry then lttng_metadata_printf s ('','' @ NL)
            else
              steps
                [\<lambda>s. lttng_metadata_printf s '' = '',
                 \<lambda>s. lttng_metadata_printf s (fmt_enum_value (start entry)),
                 \<lambda>s. if signedness (start entry) = signedness (end_v entry) \<and>
                        val (start entry) = val (end_v entry)
                     then lttng_metadata_printf s ('','' @ NL)
                     else lttng_metadata_printf s
                            ('' ... '' @ fmt_enum_value (end_v entry) @ '','' @ NL)] s] s"

fun print_enum_entries ::
  "ust_registry_session \<Rightarrow> lttng_ust_ctl_enum_entry list \<Rightarrow> nat \<Rightarrow> ret \<times> ust_registry_session" where
  "print_enum_entries s [] nesting = (None, s)"
| "print_enum_entries s (entry # rest) nesting =
     (case print_enum_entry s entry nesting of
        (Some e, s1) \<Rightarrow> (Some e, s1)
      | (None, s1) \<Rightarrow> print_enum_entries s1 rest nesting)"

text \<open>
  \<^verbatim>\<open>ust_metadata_enum_statedump\<close>. The cursor moves at the label \<^verbatim>\<open>end\<close>, on every path.
\<close>

definition ust_metadata_enum_statedump ::
  "ust_registry_session \<Rightarrow> string \<Rightarrow> 64 word \<Rightarrow> lttng_ust_ctl_integer_type \<Rightarrow> string \<Rightarrow>
   nat \<Rightarrow> nat \<Rightarrow> walk" where
  "ust_metadata_enum_statedump s nm eid container_type fname iter_field nesting =
     (case ust_registry_lookup_enum_by_id s nm eid of
        None \<Rightarrow> (Some ENOENT, s, iter_field + 1)
      | Some reg_enum \<Rightarrow>
          (let (r, s1) =
                 steps
                   [\<lambda>s. print_tabs s nesting,
                    \<lambda>s. lttng_metadata_printf s
                          (''enum : integer { size = '' @ fmt_u (int_size container_type) @
                           ''; align = '' @ fmt_u (int_alignment container_type) @
                           ''; signed = '' @ fmt_u (int_signedness container_type) @
                           ''; encoding = '' @ encoding_name (int_encoding container_type) @
                           ''; base = '' @ fmt_u (int_base container_type) @ ''; } {'' @ NL),
                    \<lambda>s. print_enum_entries s (entries reg_enum) (nesting + 1),
                    \<lambda>s. print_tabs s nesting,
                    \<lambda>s. lttng_metadata_printf s
                          (''} _'' @ sanitize_ctf_identifier fname @ '';'' @ NL)] s
           in (r, s1, iter_field + 1)))"

section \<open>The field walker\<close>

text \<open>
  The cases of the \<^verbatim>\<open>switch\<close> of \<^verbatim>\<open>_lttng_field_statedump\<close> that do not recurse, one
  definition for each \<^verbatim>\<open>case\<close> label. \<open>field\<close> is \<^verbatim>\<open>fields[*iter_field]\<close> on entry.
\<close>

definition dump_integer ::
  "ust_registry_session \<Rightarrow> lttng_ust_ctl_field \<Rightarrow> lttng_ust_ctl_integer_type \<Rightarrow>
   nat \<Rightarrow> nat \<Rightarrow> walk" where
  "dump_integer s field t iter_field nesting =
     (case print_tabs s nesting of
        (Some e, s1) \<Rightarrow> (Some e, s1, iter_field)
      | (None, s1) \<Rightarrow>
          (let (r, s2) = lttng_metadata_printf s1
                           (integer_decl s1 t @ '' _'' @ field_name field @ '';'' @ NL)
           in (r, s2, iter_field + 1)))"

definition dump_float ::
  "ust_registry_session \<Rightarrow> lttng_ust_ctl_field \<Rightarrow> lttng_ust_ctl_float_type \<Rightarrow>
   nat \<Rightarrow> nat \<Rightarrow> walk" where
  "dump_float s field t iter_field nesting =
     (case print_tabs s nesting of
        (Some e, s1) \<Rightarrow> (Some e, s1, iter_field)
      | (None, s1) \<Rightarrow>
          (let (r, s2) = lttng_metadata_printf s1
                           (''floating_point { exp_dig = '' @ fmt_u (exp_dig t) @
                            ''; mant_dig = '' @ fmt_u (mant_dig t) @
                            ''; align = '' @ fmt_u (float_alignment t) @ '';'' @
                            (if float_reverse_byte_order t then bo_reverse s1 else bo_native) @
                            '' } _'' @ field_name field @ '';'' @ NL)
           in (r, s2, iter_field + 1)))"

definition dump_array ::
  "ust_registry_session \<Rightarrow> lttng_ust_ctl_field \<Rightarrow> lttng_ust_ctl_basic_type \<Rightarrow> nat \<Rightarrow>
   nat \<Rightarrow> nat \<Rightarrow> walk" where
  "dump_array s field elem_type len iter_field nesting =
     (case print_tabs s nesting of
        (Some e, s1) \<Rightarrow> (Some e, s1, iter_field)
      | (None, s1) \<Rightarrow>
          (case elem_type of
             basic_integer t \<Rightarrow>
               (let (r, s2) = lttng_metadata_printf s1
                                (integer_decl s1 t @ '' _'' @ field_name field @
                                 ''['' @ fmt_u len @ ''];'' @ NL)
                in (r, s2, iter_field + 1))
           | _ \<Rightarrow> (Some EINVAL, s1, iter_field)))"

text \<open>
  The nestable array: the cursor moves to the next slot, which must exist and hold an
  integer, before anything is printed.
\<close>

definition dump_array_nestable ::
  "ust_registry_session \<Rightarrow> lttng_ust_ctl_field list \<Rightarrow> lttng_ust_ctl_field \<Rightarrow> nat \<Rightarrow> nat \<Rightarrow>
   nat \<Rightarrow> nat \<Rightarrow> walk" where
  "dump_array_nestable s flds field array_length alignment iter_field nesting =
     (let iter1 = iter_field + 1
      in if iter1 \<ge> length flds then (Some EOVERFLOW, s, iter1)
         else
           (case field_type (flds ! iter1) of
              lttng_ust_ctl_atype_integer t \<Rightarrow>
                (case (if alignment \<noteq> 0
                       then steps
                              [\<lambda>s. print_tabs s nesting,
                               \<lambda>s. lttng_metadata_printf s
                                     (padding_decl alignment (field_name field))] s
                       else (None, s)) of
                   (Some e, s1) \<Rightarrow> (Some e, s1, iter1)
                 | (None, s1) \<Rightarrow>
                     (case print_tabs s1 nesting of
                        (Some e, s2) \<Rightarrow> (Some e, s2, iter1)
                      | (None, s2) \<Rightarrow>
                          (let (r, s3) = lttng_metadata_printf s2
                                           (integer_decl s2 t @ '' _'' @ field_name field @
                                            ''['' @ fmt_u array_length @ ''];'' @ NL)
                           in (r, s3, iter1 + 1))))
            | _ \<Rightarrow> (Some EINVAL, s, iter1)))"

definition dump_sequence ::
  "ust_registry_session \<Rightarrow> lttng_ust_ctl_field \<Rightarrow> lttng_ust_ctl_integer_type \<Rightarrow>
   lttng_ust_ctl_basic_type \<Rightarrow> nat \<Rightarrow> nat \<Rightarrow> walk" where
  "dump_sequence s field length_type elem_type iter_field nesting =
     (case print_tabs s nesting of
        (Some e, s1) \<Rightarrow> (Some e, s1, iter_field)
      | (None, s1) \<Rightarrow>
          (case elem_type of
             basic_integer t \<Rightarrow>
               (case steps
                       [\<lambda>s. lttng_metadata_printf s
                              (integer_decl s length_type @ '' __'' @ field_name field @
                               ''_length;'' @ NL),
                        \<lambda>s. print_tabs s nesting] s1 of
                  (Some e, s2) \<Rightarrow> (Some e, s2, iter_field)
                | (None, s2) \<Rightarrow>
                    (let (r, s3) = lttng_metadata_printf s2
                                     (integer_decl s2 t @ '' _'' @ field_name field @
                                      ''[ __'' @ field_name field @ ''_length ];'' @ NL)
                     in (r, s3, iter_field + 1)))
           | _ \<Rightarrow> (Some EINVAL, s1, iter_field)))"

definition dump_sequence_nestable ::
  "ust_registry_session \<Rightarrow> lttng_ust_ctl_field list \<Rightarrow> lttng_ust_ctl_field \<Rightarrow> string \<Rightarrow> nat \<Rightarrow>
   nat \<Rightarrow> nat \<Rightarrow> walk" where
  "dump_sequence_nestable s flds field length_name alignment iter_field nesting =
     (let iter1 = iter_field + 1
      in if iter1 \<ge> length flds then (Some EOVERFLOW, s, iter1)
         else
           (case field_type (flds ! iter1) of
              lttng_ust_ctl_atype_integer t \<Rightarrow>
                (case (if alignment \<noteq> 0
                       then steps
                              [\<lambda>s. print_tabs s nesting,
                               \<lambda>s. lttng_metadata_printf s
                                     (padding_decl alignment (field_name field))] s
                       else (None, s)) of
                   (Some e, s1) \<Rightarrow> (Some e, s1, iter1)
                 | (None, s1) \<Rightarrow>
                     (case print_tabs s1 nesting of
                        (Some e, s2) \<Rightarrow> (Some e, s2, iter1)
                      | (None, s2) \<Rightarrow>
                          (let (r, s3) = lttng_metadata_printf s2
                                           (integer_decl s2 t @ '' _'' @ field_name field @
                                            ''[ _'' @ length_name @ '' ];'' @ NL)
                           in (r, s3, iter1 + 1))))
            | _ \<Rightarrow> (Some EINVAL, s, iter1)))"

definition dump_string ::
  "ust_registry_session \<Rightarrow> lttng_ust_ctl_field \<Rightarrow> lttng_ust_ctl_string_encodings \<Rightarrow>
   nat \<Rightarrow> nat \<Rightarrow> walk" where
  "dump_string s field enc iter_field nesting =
     (case print_tabs s nesting of
        (Some e, s1) \<Rightarrow> (Some e, s1, iter_field)
      | (None, s1) \<Rightarrow>
          (let (r, s2) = lttng_metadata_printf s1
                           (''string'' @
                            (if enc = lttng_ust_ctl_encode_ASCII then '' { encoding = ASCII; }''
                             else '''') @
                            '' _'' @ field_name field @ '';'' @ NL)
           in (r, s2, iter_field + 1)))"

definition dump_struct ::
  "ust_registry_session \<Rightarrow> lttng_ust_ctl_field \<Rightarrow> nat \<Rightarrow> nat \<Rightarrow> nat \<Rightarrow> walk" where
  "dump_struct s field nr_fields iter_field nesting =
     (if nr_fields \<noteq> 0 then (Some EINVAL, s, iter_field)
      else
        (case print_tabs s nesting of
           (Some e, s1) \<Rightarrow> (Some e, s1, iter_field)
         | (None, s1) \<Rightarrow>
             (let (r, s2) = lttng_metadata_printf s1
                              (''struct {} _'' @ field_name field @ '';'' @ NL)
              in (r, s2, iter_field + 1))))"

text \<open>
  The nestable structure: with an alignment a failed \<^verbatim>\<open>lttng_metadata_printf\<close> jumps to
  \<^verbatim>\<open>end\<close> and leaves the cursor; without one the cursor moves whatever the result.
\<close>

definition dump_struct_nestable ::
  "ust_registry_session \<Rightarrow> lttng_ust_ctl_field \<Rightarrow> nat \<Rightarrow> nat \<Rightarrow> nat \<Rightarrow> nat \<Rightarrow> walk" where
  "dump_struct_nestable s field nr_fields alignment iter_field nesting =
     (if nr_fields \<noteq> 0 then (Some EINVAL, s, iter_field)
      else
        (case print_tabs s nesting of
           (Some e, s1) \<Rightarrow> (Some e, s1, iter_field)
         | (None, s1) \<Rightarrow>
             (if alignment \<noteq> 0 then
                (case lttng_metadata_printf s1
                        (''struct {} align('' @ fmt_u ((alignment * CHAR_BIT) mod 2 ^ 32) @
                         '') _'' @ field_name field @ '';'' @ NL) of
                   (Some e, s2) \<Rightarrow> (Some e, s2, iter_field)
                 | (None, s2) \<Rightarrow> (None, s2, iter_field + 1))
              else
                (let (r, s2) = lttng_metadata_printf s1
                                 (''struct {} _'' @ field_name field @ '';'' @ NL)
                 in (r, s2, iter_field + 1)))))"

definition dump_enum_nestable ::
  "ust_registry_session \<Rightarrow> lttng_ust_ctl_field list \<Rightarrow> lttng_ust_ctl_field \<Rightarrow> string \<Rightarrow>
   64 word \<Rightarrow> nat \<Rightarrow> nat \<Rightarrow> walk" where
  "dump_enum_nestable s flds field nm eid iter_field nesting =
     (let iter1 = iter_field + 1
      in if iter1 \<ge> length flds then (Some EOVERFLOW, s, iter1)
         else
           (case field_type (flds ! iter1) of
              lttng_ust_ctl_atype_integer container_type \<Rightarrow>
                ust_metadata_enum_statedump s nm eid container_type (field_name field)
                  iter1 nesting
            | _ \<Rightarrow> (Some EINVAL, s, iter1)))"

text \<open>
  The two ends of \<^verbatim>\<open>_lttng_variant_statedump\<close>: what it prints before the loop over the
  choices (the padding structure when an alignment is given, then the opening line) and
  after it (the closing line). \<open>vname\<close> is the name of the variant's own descriptor.
\<close>

definition variant_header ::
  "string \<Rightarrow> nat \<Rightarrow> string \<Rightarrow> nat \<Rightarrow> ust_registry_session \<Rightarrow> ret \<times> ust_registry_session" where
  "variant_header tag_name alignment vname nesting =
     steps
       ((if alignment \<noteq> 0
         then [\<lambda>s. print_tabs s nesting,
               \<lambda>s. lttng_metadata_printf s (padding_decl alignment vname)]
         else []) @
        [\<lambda>s. print_tabs s nesting,
         \<lambda>s. lttng_metadata_printf s
               (''variant <_'' @ sanitize_ctf_identifier tag_name @ ''> {'' @ NL)])"

definition variant_footer ::
  "string \<Rightarrow> nat \<Rightarrow> ust_registry_session \<Rightarrow> ret \<times> ust_registry_session" where
  "variant_footer vname nesting =
     steps
       [\<lambda>s. print_tabs s nesting,
        \<lambda>s. lttng_metadata_printf s (''} _'' @ sanitize_ctf_identifier vname @ '';'' @ NL)]"

text \<open>
  \<^verbatim>\<open>_lttng_field_statedump\<close>, \<^verbatim>\<open>_lttng_variant_statedump\<close> and the \<^verbatim>\<open>for\<close> loop of the latter
  over the choices, with \<open>i\<close> its counter. The three call each other.
\<close>

function lttng_field_statedump ::
    "ust_registry_session \<Rightarrow> lttng_ust_ctl_field list \<Rightarrow> nat \<Rightarrow> nat \<Rightarrow> walk"
  and lttng_variant_statedump ::
    "ust_registry_session \<Rightarrow> nat \<Rightarrow> string \<Rightarrow> nat \<Rightarrow> lttng_ust_ctl_field list \<Rightarrow>
     nat \<Rightarrow> nat \<Rightarrow> walk"
  and variant_choices ::
    "ust_registry_session \<Rightarrow> nat \<Rightarrow> nat \<Rightarrow> lttng_ust_ctl_field list \<Rightarrow> nat \<Rightarrow> nat \<Rightarrow> walk"
where
  "lttng_field_statedump s flds iter_field nesting =
     (if iter_field \<ge> length flds then (Some EOVERFLOW, s, iter_field)
      else
        (let field = flds ! iter_field
         in case field_type field of
              lttng_ust_ctl_atype_integer t \<Rightarrow> dump_integer s field t iter_field nesting
            | lttng_ust_ctl_atype_enum nm eid container_type \<Rightarrow>
                ust_metadata_enum_statedump s nm eid container_type (field_name field)
                  iter_field nesting
            | lttng_ust_ctl_atype_float t \<Rightarrow> dump_float s field t iter_field nesting
            | lttng_ust_ctl_atype_array elem_type len \<Rightarrow>
                dump_array s field elem_type len iter_field nesting
            | lttng_ust_ctl_atype_array_nestable len alignment \<Rightarrow>
                dump_array_nestable s flds field len alignment iter_field nesting
            | lttng_ust_ctl_atype_sequence length_type elem_type \<Rightarrow>
                dump_sequence s field length_type elem_type iter_field nesting
            | lttng_ust_ctl_atype_sequence_nestable length_name alignment \<Rightarrow>
                dump_sequence_nestable s flds field length_name alignment iter_field nesting
            | lttng_ust_ctl_atype_string enc \<Rightarrow> dump_string s field enc iter_field nesting
            | lttng_ust_ctl_atype_variant nr_choices tag_name \<Rightarrow>
                lttng_variant_statedump s nr_choices tag_name 0 flds iter_field nesting
            | lttng_ust_ctl_atype_variant_nestable nr_choices tag_name alignment \<Rightarrow>
                lttng_variant_statedump s nr_choices tag_name alignment flds iter_field nesting
            | lttng_ust_ctl_atype_struct nr_fields \<Rightarrow>
                dump_struct s field nr_fields iter_field nesting
            | lttng_ust_ctl_atype_struct_nestable nr_fields alignment \<Rightarrow>
                dump_struct_nestable s field nr_fields alignment iter_field nesting
            | lttng_ust_ctl_atype_enum_nestable nm eid \<Rightarrow>
                dump_enum_nestable s flds field nm eid iter_field nesting
            | lttng_ust_ctl_atype_other tag \<Rightarrow> (Some EINVAL, s, iter_field)))"
| "lttng_variant_statedump s nr_choices tag_name alignment flds iter_field nesting =
     (let variant = flds ! iter_field;
          iter1 = iter_field + 1
      in case variant_header tag_name alignment (field_name variant) nesting s of
           (Some e, s1) \<Rightarrow> (Some e, s1, iter1)
         | (None, s1) \<Rightarrow>
             (case variant_choices s1 0 nr_choices flds iter1 nesting of
                (Some e, s2, iter2) \<Rightarrow> (Some e, s2, iter2)
              | (None, s2, iter2) \<Rightarrow>
                  (let (r, s3) = variant_footer (field_name variant) nesting s2
                   in (r, s3, iter2))))"
| "variant_choices s i nr_choices flds iter_field nesting =
     (if i < nr_choices then
        (if iter_field \<ge> length flds then (Some EOVERFLOW, s, iter_field)
         else
           (case lttng_field_statedump s flds iter_field (nesting + 1) of
              (Some e, s1, iter1) \<Rightarrow> (Some e, s1, iter1)
            | (None, s1, iter1) \<Rightarrow>
                variant_choices s1 (i + 1) nr_choices flds iter1 nesting))
      else (None, s, iter_field))"
  by pat_completeness auto

subsection \<open>Termination of the walker\<close>

text \<open>
  The walker never moves the cursor back. The loop over the choices of a variant calls
  the walker on the cursor that the call before returned, so its termination rests on
  this fact, proved first on the domain of the three functions.
\<close>

lemma enum_statedump_cursor:
  "ust_metadata_enum_statedump s nm eid ct fname it nesting = (r, s', it') \<Longrightarrow> it' = it + 1"
  by (auto simp: ust_metadata_enum_statedump_def split: option.splits prod.splits)

lemma leaf_cursor:
  "dump_integer s field t it nesting = (r, s', it') \<Longrightarrow> it \<le> it'"
  "dump_float s field ft it nesting = (r, s', it') \<Longrightarrow> it \<le> it'"
  "dump_array s field bt len it nesting = (r, s', it') \<Longrightarrow> it \<le> it'"
  "dump_array_nestable s flds field len al it nesting = (r, s', it') \<Longrightarrow> it \<le> it'"
  "dump_sequence s field t bt it nesting = (r, s', it') \<Longrightarrow> it \<le> it'"
  "dump_sequence_nestable s flds field ln al it nesting = (r, s', it') \<Longrightarrow> it \<le> it'"
  "dump_string s field enc it nesting = (r, s', it') \<Longrightarrow> it \<le> it'"
  "dump_struct s field n it nesting = (r, s', it') \<Longrightarrow> it \<le> it'"
  "dump_struct_nestable s field n al it nesting = (r, s', it') \<Longrightarrow> it \<le> it'"
  "dump_enum_nestable s flds field nm eid it nesting = (r, s', it') \<Longrightarrow> it \<le> it'"
  by (auto simp: dump_integer_def dump_float_def dump_array_def dump_array_nestable_def
      dump_sequence_def dump_sequence_nestable_def dump_string_def dump_struct_def
      dump_struct_nestable_def dump_enum_nestable_def Let_def
      dest!: enum_statedump_cursor
      split: option.splits prod.splits if_splits lttng_ust_ctl_basic_type.splits
        lttng_ust_ctl_type.splits)


lemma walker_cursor_partial:
  "lttng_field_statedump_lttng_variant_statedump_variant_choices_dom (Inl (s, flds, it, nesting)) \<Longrightarrow>
     lttng_field_statedump s flds it nesting = (r, s', it') \<Longrightarrow> it \<le> it'"
  "lttng_field_statedump_lttng_variant_statedump_variant_choices_dom
       (Inr (Inl (s, nr, tag, al, flds, it, nesting))) \<Longrightarrow>
     lttng_variant_statedump s nr tag al flds it nesting = (r, s', it') \<Longrightarrow> it \<le> it'"
  "lttng_field_statedump_lttng_variant_statedump_variant_choices_dom
       (Inr (Inr (s, i, nr, flds, it, nesting))) \<Longrightarrow>
     variant_choices s i nr flds it nesting = (r, s', it') \<Longrightarrow> it \<le> it'"
proof (induct arbitrary: r s' it' and r s' it' and r s' it'
    rule: lttng_field_statedump_lttng_variant_statedump_variant_choices.pinduct)
  case (1 s flds iter_field nesting)
  show ?case
  proof (cases "length flds \<le> iter_field")
    case True
    with "1.prems" "1.hyps"(1) show ?thesis
      by (simp add: lttng_field_statedump.psimps)
  next
    case False
    with "1.prems" "1.hyps"(1)
    have eq: "(case field_type (flds ! iter_field) of
         lttng_ust_ctl_atype_integer t \<Rightarrow> dump_integer s (flds ! iter_field) t iter_field nesting
       | lttng_ust_ctl_atype_enum nm eid container_type \<Rightarrow>
           ust_metadata_enum_statedump s nm eid container_type (field_name (flds ! iter_field))
             iter_field nesting
       | lttng_ust_ctl_atype_float t \<Rightarrow> dump_float s (flds ! iter_field) t iter_field nesting
       | lttng_ust_ctl_atype_array elem_type len \<Rightarrow>
           dump_array s (flds ! iter_field) elem_type len iter_field nesting
       | lttng_ust_ctl_atype_array_nestable len alignment \<Rightarrow>
           dump_array_nestable s flds (flds ! iter_field) len alignment iter_field nesting
       | lttng_ust_ctl_atype_sequence length_type elem_type \<Rightarrow>
           dump_sequence s (flds ! iter_field) length_type elem_type iter_field nesting
       | lttng_ust_ctl_atype_sequence_nestable length_name alignment \<Rightarrow>
           dump_sequence_nestable s flds (flds ! iter_field) length_name alignment iter_field nesting
       | lttng_ust_ctl_atype_string enc \<Rightarrow> dump_string s (flds ! iter_field) enc iter_field nesting
       | lttng_ust_ctl_atype_variant nr_choices tag_name \<Rightarrow>
           lttng_variant_statedump s nr_choices tag_name 0 flds iter_field nesting
       | lttng_ust_ctl_atype_variant_nestable nr_choices tag_name alignment \<Rightarrow>
           lttng_variant_statedump s nr_choices tag_name alignment flds iter_field nesting
       | lttng_ust_ctl_atype_struct nr_fields \<Rightarrow>
           dump_struct s (flds ! iter_field) nr_fields iter_field nesting
       | lttng_ust_ctl_atype_struct_nestable nr_fields alignment \<Rightarrow>
           dump_struct_nestable s (flds ! iter_field) nr_fields alignment iter_field nesting
       | lttng_ust_ctl_atype_enum_nestable nm eid \<Rightarrow>
           dump_enum_nestable s flds (flds ! iter_field) nm eid iter_field nesting
       | lttng_ust_ctl_atype_other tag \<Rightarrow> (Some EINVAL, s, iter_field)) = (r, s', it')"
      by (simp add: lttng_field_statedump.psimps Let_def)
    show ?thesis
    proof (cases "field_type (flds ! iter_field)")
      case (lttng_ust_ctl_atype_variant nr tg)
      with eq "1.hyps"(2) [OF False refl] show ?thesis by simp
    next
      case (lttng_ust_ctl_atype_variant_nestable nr tg al)
      with eq "1.hyps"(3) [OF False refl] show ?thesis by simp
    qed (use eq in \<open>auto dest: leaf_cursor dest!: enum_statedump_cursor\<close>)
  qed
next
  case (2 s nr_choices tag_name alignment flds iter_field nesting)
  let ?hdr = "variant_header tag_name alignment (field_name (flds ! iter_field)) nesting s"
  obtain r1 s1 where h: "?hdr = (r1, s1)" by (cases ?hdr)
  show ?case
  proof (cases r1)
    case (Some e)
    with h "2.prems" "2.hyps"(1) show ?thesis
      by (simp add: lttng_variant_statedump.psimps Let_def)
  next
    case None
    obtain r2 s2 it2 where c: "variant_choices s1 0 nr_choices flds (iter_field + 1) nesting = (r2, s2, it2)"
      by (cases "variant_choices s1 0 nr_choices flds (iter_field + 1) nesting")
    from "2.hyps"(2) [OF refl refl h [symmetric] None c] have le: "iter_field + 1 \<le> it2" .
    from h None c "2.prems" "2.hyps"(1) have "it' = it2"
      by (auto simp: lttng_variant_statedump.psimps Let_def split: option.splits prod.splits)
    with le show ?thesis by simp
  qed
next
  case (3 s i nr_choices flds iter_field nesting)
  show ?case
  proof (cases "i < nr_choices \<and> \<not> length flds \<le> iter_field")
    case False
    with "3.prems" "3.hyps"(1) show ?thesis
      by (auto simp: variant_choices.psimps split: if_splits)
  next
    case True
    obtain r1 s1 it1 where f: "lttng_field_statedump s flds iter_field (nesting + 1) = (r1, s1, it1)"
      by (cases "lttng_field_statedump s flds iter_field (nesting + 1)")
    from "3.hyps"(2) [OF _ _ f] True have le1: "iter_field \<le> it1" by simp
    show ?thesis
    proof (cases r1)
      case None
      with True f "3.prems" "3.hyps"(1)
      have "variant_choices s1 (i + 1) nr_choices flds it1 nesting = (r, s', it')"
        by (simp add: variant_choices.psimps)
      from "3.hyps"(3) [OF _ _ _ _ _ this] True f None have "it1 \<le> it'" by simp
      with le1 show ?thesis by simp
    next
      case (Some e)
      with True f "3.prems" "3.hyps"(1) le1 show ?thesis
        by (simp add: variant_choices.psimps)
    qed
  qed
qed


termination lttng_field_statedump
proof (relation "measures
    [\<lambda>x. case x of
        Inl (s, flds, it, nesting) \<Rightarrow> 3 * (length flds - it) + 1
      | Inr (Inl (s, nr, tag, al, flds, it, nesting)) \<Rightarrow> max 3 (3 * (length flds - it))
      | Inr (Inr (s, i, nr, flds, it, nesting)) \<Rightarrow> 3 * (length flds - it) + 2,
     \<lambda>x. case x of
        Inr (Inr (s, i, nr, flds, it, nesting)) \<Rightarrow> nr - i
      | _ \<Rightarrow> 0]", goal_cases)
  case 1
  show ?case by simp
next
  case (2 s flds iter_field nesting x x91 x92)
  then show ?case by simp
next
  case (3 s flds iter_field nesting x x101 x102 x103)
  then show ?case by simp
next
  case (4 s nr_choices tag_name alignment flds iter_field nesting x xa xb y)
  then show ?case by (auto simp: max_def)
next
  case (5 s i nr_choices flds iter_field nesting)
  then show ?case by simp
next
  case (6 s i nr_choices flds iter_field nesting x y xa ya)
  from "6"(3,5) have "lttng_field_statedump s flds iter_field (nesting + 1) = (x, xa, ya)"
    by simp
  from walker_cursor_partial(1) [OF "6"(6) this]
  have "iter_field \<le> ya" .
  with "6"(1,2) show ?case by simp arith
qed

section \<open>Events and channels\<close>

text \<open>
  \<^verbatim>\<open>ust_registry_event\<close>: the members the dump reads, and the flag \<^verbatim>\<open>metadata_dumped\<close>.
  \<open>ev_fields\<close> is the array \<^verbatim>\<open>fields\<close> with its length \<^verbatim>\<open>nr_fields\<close>; \<open>model_emf_uri\<close> is
  \<open>None\<close> for the null pointer.
\<close>

record ust_registry_event =
  ev_name :: string
  ev_id :: "32 word"
  loglevel_value :: int
  model_emf_uri :: "string option"
  ev_fields :: "lttng_ust_ctl_field list"
  event_metadata_dumped :: bool

datatype lttng_ust_ctl_channel_header =
  LTTNG_UST_CTL_CHANNEL_HEADER_UNKNOWN
  | LTTNG_UST_CTL_CHANNEL_HEADER_COMPACT
  | LTTNG_UST_CTL_CHANNEL_HEADER_LARGE

text \<open>
  \<^verbatim>\<open>ust_registry_channel\<close>. \<open>ctx_fields\<close> is \<open>None\<close> for the null pointer and otherwise the
  array with its length \<^verbatim>\<open>nr_ctx_fields\<close>. \<open>events\<close> are the events of the hash table
  \<^verbatim>\<open>chan->events->ht\<close>, in the order the iteration visits them.
\<close>

record ust_registry_channel =
  chan_id :: "32 word"
  header_type :: lttng_ust_ctl_channel_header
  ctx_fields :: "lttng_ust_ctl_field list option"
  chan_metadata_dumped :: bool
  events :: "ust_registry_event list"

text \<open>
  The loop of \<^verbatim>\<open>_lttng_context_metadata_statedump\<close> and of
  \<^verbatim>\<open>_lttng_fields_metadata_statedump\<close>: the walker at depth 2, from the cursor \<open>i\<close>, until
  the cursor reaches the length or the walker fails.
\<close>

function statedump_fields_loop ::
  "ust_registry_session \<Rightarrow> lttng_ust_ctl_field list \<Rightarrow> nat \<Rightarrow> ret \<times> ust_registry_session" where
  "statedump_fields_loop s flds i =
     (if i \<ge> length flds then (None, s)
      else
        (case lttng_field_statedump s flds i 2 of
           (Some e, s1, i1) \<Rightarrow> (Some e, s1)
         | (None, s1, i1) \<Rightarrow> statedump_fields_loop s1 flds i1))"
  by pat_completeness auto

subsection \<open>The walker moves forward\<close>

text \<open>
  A call of the walker that succeeds moves the cursor forward by at least one slot and
  not beyond the end of the list: this is what ends the loop over a field list. A loop
  over \<open>nr\<close> choices that succeeds from the counter \<open>i\<close> moves it by \<open>nr - i\<close> slots at
  least.
\<close>

lemma leaf_advance:
  "dump_integer s field t it nesting = (None, s', it') \<Longrightarrow> it < it'"
  "dump_float s field ft it nesting = (None, s', it') \<Longrightarrow> it < it'"
  "dump_array s field bt len it nesting = (None, s', it') \<Longrightarrow> it < it'"
  "dump_array_nestable s flds field len al it nesting = (None, s', it') \<Longrightarrow> it < it'"
  "dump_sequence s field t bt it nesting = (None, s', it') \<Longrightarrow> it < it'"
  "dump_sequence_nestable s flds field ln al it nesting = (None, s', it') \<Longrightarrow> it < it'"
  "dump_string s field enc it nesting = (None, s', it') \<Longrightarrow> it < it'"
  "dump_struct s field n it nesting = (None, s', it') \<Longrightarrow> it < it'"
  "dump_struct_nestable s field n al it nesting = (None, s', it') \<Longrightarrow> it < it'"
  "dump_enum_nestable s flds field nm eid it nesting = (None, s', it') \<Longrightarrow> it < it'"
  by (auto simp: dump_integer_def dump_float_def dump_array_def dump_array_nestable_def
      dump_sequence_def dump_sequence_nestable_def dump_string_def dump_struct_def
      dump_struct_nestable_def dump_enum_nestable_def Let_def
      dest!: enum_statedump_cursor
      split: option.splits prod.splits if_splits lttng_ust_ctl_basic_type.splits
        lttng_ust_ctl_type.splits)

lemma leaf_bound:
  "it < length flds \<Longrightarrow> dump_integer s field t it nesting = (None, s', it') \<Longrightarrow> it' \<le> length flds"
  "it < length flds \<Longrightarrow> dump_float s field ft it nesting = (None, s', it') \<Longrightarrow> it' \<le> length flds"
  "it < length flds \<Longrightarrow> dump_array s field bt len it nesting = (None, s', it') \<Longrightarrow> it' \<le> length flds"
  "dump_array_nestable s flds field len al it nesting = (None, s', it') \<Longrightarrow> it' \<le> length flds"
  "it < length flds \<Longrightarrow> dump_sequence s field t bt it nesting = (None, s', it') \<Longrightarrow> it' \<le> length flds"
  "dump_sequence_nestable s flds field ln al it nesting = (None, s', it') \<Longrightarrow> it' \<le> length flds"
  "it < length flds \<Longrightarrow> dump_string s field enc it nesting = (None, s', it') \<Longrightarrow> it' \<le> length flds"
  "it < length flds \<Longrightarrow> dump_struct s field n it nesting = (None, s', it') \<Longrightarrow> it' \<le> length flds"
  "it < length flds \<Longrightarrow> dump_struct_nestable s field n al it nesting = (None, s', it') \<Longrightarrow> it' \<le> length flds"
  "dump_enum_nestable s flds field nm eid it nesting = (None, s', it') \<Longrightarrow> it' \<le> length flds"
  "it < length flds \<Longrightarrow> ust_metadata_enum_statedump s nm eid ct fname it nesting = (None, s', it') \<Longrightarrow>
     it' \<le> length flds"
  by (auto simp: dump_integer_def dump_float_def dump_array_def dump_array_nestable_def
      dump_sequence_def dump_sequence_nestable_def dump_string_def dump_struct_def
      dump_struct_nestable_def dump_enum_nestable_def Let_def
      dest!: enum_statedump_cursor
      split: option.splits prod.splits if_splits lttng_ust_ctl_basic_type.splits
        lttng_ust_ctl_type.splits)

lemma field_statedump_unfold:
  "iter_field < length flds \<Longrightarrow>
   lttng_field_statedump s flds iter_field nesting =
     (case field_type (flds ! iter_field) of
         lttng_ust_ctl_atype_integer t \<Rightarrow> dump_integer s (flds ! iter_field) t iter_field nesting
       | lttng_ust_ctl_atype_enum nm eid container_type \<Rightarrow>
           ust_metadata_enum_statedump s nm eid container_type (field_name (flds ! iter_field))
             iter_field nesting
       | lttng_ust_ctl_atype_float t \<Rightarrow> dump_float s (flds ! iter_field) t iter_field nesting
       | lttng_ust_ctl_atype_array elem_type len \<Rightarrow>
           dump_array s (flds ! iter_field) elem_type len iter_field nesting
       | lttng_ust_ctl_atype_array_nestable len alignment \<Rightarrow>
           dump_array_nestable s flds (flds ! iter_field) len alignment iter_field nesting
       | lttng_ust_ctl_atype_sequence length_type elem_type \<Rightarrow>
           dump_sequence s (flds ! iter_field) length_type elem_type iter_field nesting
       | lttng_ust_ctl_atype_sequence_nestable length_name alignment \<Rightarrow>
           dump_sequence_nestable s flds (flds ! iter_field) length_name alignment iter_field nesting
       | lttng_ust_ctl_atype_string enc \<Rightarrow> dump_string s (flds ! iter_field) enc iter_field nesting
       | lttng_ust_ctl_atype_variant nr_choices tag_name \<Rightarrow>
           lttng_variant_statedump s nr_choices tag_name 0 flds iter_field nesting
       | lttng_ust_ctl_atype_variant_nestable nr_choices tag_name alignment \<Rightarrow>
           lttng_variant_statedump s nr_choices tag_name alignment flds iter_field nesting
       | lttng_ust_ctl_atype_struct nr_fields \<Rightarrow>
           dump_struct s (flds ! iter_field) nr_fields iter_field nesting
       | lttng_ust_ctl_atype_struct_nestable nr_fields alignment \<Rightarrow>
           dump_struct_nestable s (flds ! iter_field) nr_fields alignment iter_field nesting
       | lttng_ust_ctl_atype_enum_nestable nm eid \<Rightarrow>
           dump_enum_nestable s flds (flds ! iter_field) nm eid iter_field nesting
       | lttng_ust_ctl_atype_other tag \<Rightarrow> (Some EINVAL, s, iter_field))"
  by (simp add: Let_def)

lemma field_statedump_overflow:
  "length flds \<le> iter_field \<Longrightarrow>
   lttng_field_statedump s flds iter_field nesting = (Some EOVERFLOW, s, iter_field)"
  by simp

lemma variant_statedump_unfold:
  "lttng_variant_statedump s nr_choices tag_name alignment flds iter_field nesting =
     (case variant_header tag_name alignment (field_name (flds ! iter_field)) nesting s of
        (Some e, s1) \<Rightarrow> (Some e, s1, iter_field + 1)
      | (None, s1) \<Rightarrow>
          (case variant_choices s1 0 nr_choices flds (iter_field + 1) nesting of
             (Some e, s2, iter2) \<Rightarrow> (Some e, s2, iter2)
           | (None, s2, iter2) \<Rightarrow>
               (let (r, s3) = variant_footer (field_name (flds ! iter_field)) nesting s2
                in (r, s3, iter2))))"
  by (subst lttng_variant_statedump.simps) (simp only: Let_def)

lemmas walker_simps_del =
  lttng_field_statedump.simps lttng_variant_statedump.simps variant_choices.simps

lemma walker_advance:
  "lttng_field_statedump s flds it nesting = (r, s', it') \<Longrightarrow>
     it \<le> it' \<and> (r = None \<longrightarrow> it < it' \<and> it' \<le> length flds)"
  "lttng_variant_statedump s nr tag al flds it nesting = (r, s', it') \<Longrightarrow>
     it < it' \<and> (r = None \<longrightarrow> it' \<le> max (it + 1) (length flds))"
  "variant_choices s i nr flds it nesting = (r, s', it') \<Longrightarrow>
     it \<le> it' \<and> (r = None \<longrightarrow> it + (nr - i) \<le> it' \<and> it' \<le> max it (length flds))"
proof (induct s flds it nesting and s nr tag al flds it nesting and s i nr flds it nesting
    arbitrary: r s' it' and r s' it' and r s' it'
    rule: lttng_field_statedump_lttng_variant_statedump_variant_choices.induct)
  case (1 s flds iter_field nesting)
  show ?case
  proof (cases "length flds \<le> iter_field")
    case True
    with "1.prems" show ?thesis by (auto simp del: walker_simps_del simp add: field_statedump_overflow)
  next
    case False
    then have lt: "iter_field < length flds" by simp
    note eq = "1.prems" [unfolded field_statedump_unfold [OF lt]]
    show ?thesis
    proof (cases "field_type (flds ! iter_field)")
      case (lttng_ust_ctl_atype_variant nr tg)
      with eq "1.hyps"(1) [OF False refl] lt show ?thesis by (fastforce simp del: walker_simps_del)
    next
      case (lttng_ust_ctl_atype_variant_nestable nr tg al)
      with eq "1.hyps"(2) [OF False refl] lt show ?thesis by (fastforce simp del: walker_simps_del)
    qed (use eq lt in \<open>auto simp del: walker_simps_del dest: leaf_cursor leaf_advance leaf_bound
          dest!: enum_statedump_cursor\<close>)
  qed
next
  case (2 s nr_choices tag_name alignment flds iter_field nesting)
  let ?hdr = "variant_header tag_name alignment (field_name (flds ! iter_field)) nesting s"
  obtain r1 s1 where h: "?hdr = (r1, s1)" by (cases ?hdr)
  note h' = h
  note eq = "2.prems" [unfolded variant_statedump_unfold]
  show ?case
  proof (cases r1)
    case (Some e)
    with h' eq show ?thesis by simp
  next
    case None
    obtain r2 s2 it2 where c: "variant_choices s1 0 nr_choices flds (iter_field + 1) nesting = (r2, s2, it2)"
      by (cases "variant_choices s1 0 nr_choices flds (iter_field + 1) nesting")
    from "2.hyps" [OF refl refl h [symmetric] None c]
    have le: "iter_field + 1 \<le> it2"
      and ub: "r2 = None \<longrightarrow> it2 \<le> max (iter_field + 1) (length flds)" by simp_all
    from h' None c eq have "it' = it2" "r = None \<longrightarrow> r2 = None"
      by (auto simp del: walker_simps_del split: option.splits prod.splits)
    with le ub show ?thesis by auto
  qed
next
  case (3 s i nr_choices flds iter_field nesting)
  show ?case
  proof (cases "i < nr_choices \<and> \<not> length flds \<le> iter_field")
    case False
    with "3.prems" show ?thesis
      by (auto split: if_splits)
  next
    case True
    obtain r1 s1 it1 where f: "lttng_field_statedump s flds iter_field (nesting + 1) = (r1, s1, it1)"
      by (cases "lttng_field_statedump s flds iter_field (nesting + 1)")
    from "3.hyps"(1) [OF _ _ f] True
    have le1: "iter_field \<le> it1" and lt1: "r1 = None \<Longrightarrow> iter_field < it1"
      and ub1: "r1 = None \<Longrightarrow> it1 \<le> length flds" by simp_all
    show ?thesis
    proof (cases r1)
      case None
      from True f None "3.prems"
      have c: "variant_choices s1 (i + 1) nr_choices flds it1 nesting = (r, s', it')"
        by (subst (asm) variant_choices.simps) (simp del: walker_simps_del)
      from "3.hyps"(2) [OF _ _ _ _ _ this] True f None
      have "it1 \<le> it'" "r = None \<longrightarrow> it1 + (nr_choices - (i + 1)) \<le> it' \<and> it' \<le> max it1 (length flds)"
        by simp_all
      with le1 lt1 [OF None] ub1 [OF None] True show ?thesis by auto
    next
      case (Some e)
      from True f Some "3.prems" have "r = Some e" "it' = it1"
        by (subst (asm) variant_choices.simps, simp del: walker_simps_del)+
      with le1 show ?thesis by simp
    qed
  qed
qed

declare walker_simps_del [simp del]

termination statedump_fields_loop
proof (relation "measure (\<lambda>(s, flds, i). length flds - i)", goal_cases)
  case 1
  show ?case by simp
next
  case (2 s flds i x y xa ya)
  then have "lttng_field_statedump s flds i 2 = (None, xa, ya)" by simp
  from walker_advance(1) [OF this] "2"(1) show ?case by simp arith
qed

declare statedump_fields_loop.simps [simp del]

definition lttng_context_metadata_statedump ::
  "ust_registry_session \<Rightarrow> lttng_ust_ctl_field list option \<Rightarrow> ret \<times> ust_registry_session" where
  "lttng_context_metadata_statedump s ctx =
     (case ctx of
        None \<Rightarrow> (None, s)
      | Some flds \<Rightarrow> statedump_fields_loop s flds 0)"

definition lttng_fields_metadata_statedump ::
  "ust_registry_session \<Rightarrow> ust_registry_event \<Rightarrow> ret \<times> ust_registry_session" where
  "lttng_fields_metadata_statedump s event = statedump_fields_loop s (ev_fields event) 0"

text \<open>The texts of the event block around the fields.\<close>

definition event_open_text :: "ust_registry_channel \<Rightarrow> ust_registry_event \<Rightarrow> string" where
  "event_open_text chan event =
     ''event {'' @ NL @
     TAB @ ''name = '' @ DQUOTE @ ev_name event @ DQUOTE @ '';'' @ NL @
     TAB @ ''id = '' @ fmt_u (unat (ev_id event)) @ '';'' @ NL @
     TAB @ ''stream_id = '' @ fmt_u (unat (chan_id chan)) @ '';'' @ NL"

definition event_loglevel_text :: "ust_registry_event \<Rightarrow> string" where
  "event_loglevel_text event = TAB @ ''loglevel = '' @ fmt_d (loglevel_value event) @ '';'' @ NL"

definition event_uri_text :: "string \<Rightarrow> string" where
  "event_uri_text uri = TAB @ ''model.emf.uri = '' @ DQUOTE @ uri @ DQUOTE @ '';'' @ NL"

definition event_fields_open_text :: string where
  "event_fields_open_text = TAB @ ''fields := struct {'' @ NL"

definition event_close_text :: string where
  "event_close_text = TAB @ ''};'' @ NL @ ''};'' @ NL @ NL"

text \<open>The steps that emit the event block.\<close>

definition event_block ::
  "ust_registry_channel \<Rightarrow> ust_registry_event \<Rightarrow> ust_registry_session \<Rightarrow>
   ret \<times> ust_registry_session" where
  "event_block chan event =
     steps
       [\<lambda>s. lttng_metadata_printf s (event_open_text chan event),
        \<lambda>s. lttng_metadata_printf s (event_loglevel_text event),
        \<lambda>s. case model_emf_uri event of
               None \<Rightarrow> (None, s)
             | Some uri \<Rightarrow> lttng_metadata_printf s (event_uri_text uri),
        \<lambda>s. lttng_metadata_printf s event_fields_open_text,
        \<lambda>s. lttng_fields_metadata_statedump s event,
        \<lambda>s. lttng_metadata_printf s event_close_text]"

text \<open>
  \<^verbatim>\<open>ust_metadata_event_statedump\<close>. The event is returned with its flag, which is set
  after the last step.
\<close>

definition ust_metadata_event_statedump ::
  "ust_registry_session \<Rightarrow> ust_registry_channel \<Rightarrow> ust_registry_event \<Rightarrow>
   ret \<times> ust_registry_session \<times> ust_registry_event" where
  "ust_metadata_event_statedump s chan event =
     (if chan_id chan = - 1 then (None, s, event)
      else if \<not> chan_metadata_dumped chan \<or> event_metadata_dumped event then (None, s, event)
      else
        (case event_block chan event s of
           (Some e, s1) \<Rightarrow> (Some e, s1, event)
         | (None, s1) \<Rightarrow> (None, s1, event\<lparr>event_metadata_dumped := True\<rparr>)))"

text \<open>
  The loop of \<^verbatim>\<open>ust_metadata_channel_statedump\<close> over the sorted vector of event
  pointers: \<open>order\<close> holds the positions of the events in the table, and each event is
  dumped where it lives. The result of the dump is dropped, as the source drops it.
\<close>

fun dump_sorted_events ::
  "ust_registry_session \<Rightarrow> ust_registry_channel \<Rightarrow> nat list \<Rightarrow> ust_registry_event list \<Rightarrow>
   ust_registry_session \<times> ust_registry_event list" where
  "dump_sorted_events s chan [] evs = (s, evs)"
| "dump_sorted_events s chan (i # order) evs =
     (let (r, s1, event) = ust_metadata_event_statedump s chan (evs ! i)
      in dump_sorted_events s1 chan order (evs[i := event]))"

definition stream_open_text :: "ust_registry_channel \<Rightarrow> string" where
  "stream_open_text chan =
     ''stream {'' @ NL @
     TAB @ ''id = '' @ fmt_u (unat (chan_id chan)) @ '';'' @ NL @
     TAB @ ''event.header := '' @
     (if header_type chan = LTTNG_UST_CTL_CHANNEL_HEADER_COMPACT
      then ''struct event_header_compact'' else ''struct event_header_large'') @ '';'' @ NL @
     TAB @ ''packet.context := struct packet_context;'' @ NL"

definition stream_context_open_text :: string where
  "stream_context_open_text = TAB @ ''event.context := struct {'' @ NL"

definition stream_context_close_text :: string where
  "stream_context_close_text = TAB @ ''};'' @ NL"

definition stream_close_text :: string where
  "stream_close_text = ''};'' @ NL @ NL"

text \<open>
  The channel's own emission: the stream block, with the context fields when the channel
  has any.
\<close>

definition channel_stream_block ::
  "ust_registry_channel \<Rightarrow> ust_registry_session \<Rightarrow> ret \<times> ust_registry_session" where
  "channel_stream_block chan =
     steps
       [\<lambda>s. lttng_metadata_printf s (stream_open_text chan),
        \<lambda>s. if ctx_fields chan \<noteq> None then lttng_metadata_printf s stream_context_open_text
            else (None, s),
        \<lambda>s. lttng_context_metadata_statedump s (ctx_fields chan),
        \<lambda>s. if ctx_fields chan \<noteq> None then lttng_metadata_printf s stream_context_close_text
            else (None, s),
        \<lambda>s. lttng_metadata_printf s stream_close_text]"

text \<open>
  \<^verbatim>\<open>std::sort\<close> orders the vector of event pointers by the comparison \<^verbatim>\<open>a->id < b->id\<close>, and
  fixes no order among events of equal id. The vector holds the positions of the events
  in the table. The model puts the positions in the order of \<open>rank\<close> and then sorts them by
  id with a stable sort: \<open>rank\<close> is an argument that stands for whatever decides the order
  of events of equal id (the walk over the hash table, the algorithm of the library).
  \<open>std_sort_result\<close> is what \<^verbatim>\<open>std::sort\<close> guarantees of the vector it leaves: it is a
  permutation of the positions of the table, and along it the ids do not descend.
\<close>

definition std_sort :: "(nat \<Rightarrow> nat) \<Rightarrow> ust_registry_event list \<Rightarrow> nat list" where
  "std_sort rank evs = sort_key (\<lambda>i. ev_id (evs ! i)) (sort_key rank [0..<length evs])"

definition std_sort_result :: "ust_registry_event list \<Rightarrow> nat list \<Rightarrow> bool" where
  "std_sort_result evs order \<longleftrightarrow>
     sort order = [0..<length evs] \<and> sorted (map (\<lambda>i. ev_id (evs ! i)) order)"

text \<open>
  \<^verbatim>\<open>ust_metadata_channel_statedump\<close>, with \<open>rank\<close> for the order that \<^verbatim>\<open>std::sort\<close> leaves among
  events of equal id.
\<close>

definition ust_metadata_channel_statedump ::
  "ust_registry_session \<Rightarrow> ust_registry_channel \<Rightarrow> (nat \<Rightarrow> nat) \<Rightarrow>
   ret \<times> ust_registry_session \<times> ust_registry_channel" where
  "ust_metadata_channel_statedump s chan rank =
     (if chan_id chan = - 1 then (None, s, chan)
      else if header_type chan = LTTNG_UST_CTL_CHANNEL_HEADER_UNKNOWN then (Some EINVAL, s, chan)
      else
        (case channel_stream_block chan s of
           (Some e, s1) \<Rightarrow> (Some e, s1, chan)
         | (None, s1) \<Rightarrow>
             (let chan1 = chan\<lparr>chan_metadata_dumped := True\<rparr>;
                  order = std_sort rank (events chan1);
                  (s2, evs) = dump_sorted_events s1 chan1 order (events chan1)
              in (None, s2, chan1\<lparr>events := evs\<rparr>))))"

text \<open>The written part of the buffer: the document so far.\<close>

definition content :: "ust_registry_session \<Rightarrow> string" where
  "content s = take (metadata_len s) (metadata s)"

text \<open>\<open>written s s'\<close>: what the document of \<open>s'\<close> holds after the length of that of \<open>s\<close>.\<close>

definition written :: "ust_registry_session \<Rightarrow> ust_registry_session \<Rightarrow> string" where
  "written s s' = drop (length (content s)) (content s')"

text \<open>
  \<open>extends s s'\<close>: the session \<open>s'\<close> satisfies the buffer invariant, has the registry, the
  byte order and the file descriptor of \<open>s\<close>, and its document starts with that of \<open>s\<close>.
\<close>

definition extends :: "ust_registry_session \<Rightarrow> ust_registry_session \<Rightarrow> bool" where
  "extends s s' \<longleftrightarrow>
     session_inv s' \<and> enums s' = enums s \<and> byte_order s' = byte_order s \<and>
     metadata_fd s' = metadata_fd s \<and> prefix (content s) (content s')"

text \<open>
  \<open>emitter f\<close>: from a session that satisfies the invariant, the step \<open>f\<close> leads to one
  that extends it, whatever the result.
\<close>

definition emitter :: "(ust_registry_session \<Rightarrow> ret \<times> ust_registry_session) \<Rightarrow> bool" where
  "emitter f \<longleftrightarrow> (\<forall>s r s'. session_inv s \<longrightarrow> f s = (r, s') \<longrightarrow> extends s s')"


section \<open>The escaping rules, as the specification words them\<close>

text \<open>
  Free-form strings: the newline becomes the two characters backslash and \<open>n\<close>, the
  backslash and the double quote get a backslash before them, every other character is
  copied.
\<close>

definition ctf_string_escape :: "char \<Rightarrow> string" where
  "ctf_string_escape c =
     (if c = CHR 0x0A then BACKSLASH @ ''n''
      else if c = CHR 0x5C \<or> c = CHR 0x22 then BACKSLASH @ [c]
      else [c])"

text \<open>
  Labels of enumeration entries: the double quote and the backslash get a backslash
  before them, every other character is copied, the newline too.
\<close>

definition enum_label_escape :: "char \<Rightarrow> string" where
  "enum_label_escape c = (if c = CHR 0x22 \<or> c = CHR 0x5C then BACKSLASH @ [c] else [c])"

section \<open>The text of an enumeration, as the specification words it\<close>






text \<open>
  \<open>appends f t\<close>: from a session that satisfies the invariant, a successful run of the
  step \<open>f\<close> appends exactly the text \<open>t\<close> to the document.
\<close>

definition appends ::
  "(ust_registry_session \<Rightarrow> ret \<times> ust_registry_session) \<Rightarrow> string \<Rightarrow> bool" where
  "appends f t \<longleftrightarrow>
     (\<forall>s s'. session_inv s \<longrightarrow> f s = (None, s') \<longrightarrow>
        session_inv s' \<and> content s' = content s @ t)"




definition example_container :: lttng_ust_ctl_integer_type where
  "example_container =
     \<lparr>int_size = 32, int_alignment = 8, int_signedness = 0,
      int_encoding = lttng_ust_ctl_encode_none, int_base = 10,
      int_reverse_byte_order = False\<rparr>"

section \<open>A quiet environment\<close>

text \<open>
  \<open>calm s\<close>: the session satisfies the buffer invariant, no allocation is scripted to
  fail, there is no persisted copy, and the allocation is at most twice what is written.
  \<open>appended s str\<close> is the session that \<^verbatim>\<open>lttng_metadata_printf\<close> leaves.
\<close>

definition calm :: "ust_registry_session \<Rightarrow> bool" where
  "calm s \<longleftrightarrow>
     session_inv s \<and> heap_script s = [] \<and> metadata_fd s < 0 \<and>
     metadata_alloc_len s \<le> 2 * metadata_len s"

definition appended :: "ust_registry_session \<Rightarrow> string \<Rightarrow> ust_registry_session" where
  "appended s str = snd (lttng_metadata_printf s str)"

text \<open>\<open>fits s n\<close>: the session is calm and \<open>n\<close> more bytes stay below \<open>2 ^ 29\<close>.\<close>

definition fits :: "ust_registry_session \<Rightarrow> nat \<Rightarrow> bool" where
  "fits s n \<longleftrightarrow> calm s \<and> metadata_len s + n < 2 ^ 29"

section \<open>Well-formed channels and the pieces of an event block\<close>

text \<open>
  The internal metadata channel, whose id is the all-ones value, is never ready:
  \<^verbatim>\<open>ust_metadata_channel_statedump\<close> returns before it sets the flag.
\<close>

definition channel_inv :: "ust_registry_channel \<Rightarrow> bool" where
  "channel_inv chan \<longleftrightarrow> (chan_id chan = - 1 \<longrightarrow> \<not> chan_metadata_dumped chan)"

text \<open>The text of an event block that comes before the fields.\<close>

definition event_head_text :: "ust_registry_channel \<Rightarrow> ust_registry_event \<Rightarrow> string" where
  "event_head_text chan event =
     event_open_text chan event @ event_loglevel_text event @
     (case model_emf_uri event of None \<Rightarrow> [] | Some uri \<Rightarrow> event_uri_text uri) @
     event_fields_open_text"

section \<open>Examples\<close>

text \<open>
  A ready channel with id 0 and no context, and an event with one 32-bit integer field.
\<close>

definition ready_channel :: ust_registry_channel where
  "ready_channel =
     \<lparr>chan_id = 0, header_type = LTTNG_UST_CTL_CHANNEL_HEADER_COMPACT, ctx_fields = None,
      chan_metadata_dumped = True, events = []\<rparr>"

definition example_event :: ust_registry_event where
  "example_event =
     \<lparr>ev_name = ''ev'', ev_id = 7, loglevel_value = 13, model_emf_uri = None,
      ev_fields = [\<lparr>field_name = ''x'',
                    field_type = lttng_ust_ctl_atype_integer example_container\<rparr>],
      event_metadata_dumped = False\<rparr>"

text \<open>
  The text of the stream block of a channel, with \<open>w\<close> what the walk over the context
  fields wrote.
\<close>

definition stream_block_text :: "ust_registry_channel \<Rightarrow> string \<Rightarrow> string" where
  "stream_block_text chan w =
     stream_open_text chan @
     (case ctx_fields chan of
        None \<Rightarrow> []
      | Some flds \<Rightarrow> stream_context_open_text @ w @ stream_context_close_text) @
     stream_close_text"

text \<open>
  \<open>block_shaped chan event c\<close>: the text \<open>c\<close> starts with the head of the block of the event
  and, after it, ends with the closing lines of a block.
\<close>

definition block_shaped :: "ust_registry_channel \<Rightarrow> ust_registry_event \<Rightarrow> string \<Rightarrow> bool" where
  "block_shaped chan event c \<longleftrightarrow>
     prefix (event_head_text chan event) c \<and>
     suffix event_close_text (drop (length (event_head_text chan event)) c)"

text \<open>
  \<open>event_outcome chan event r event' c\<close>: what a dump of the event under the channel may
  leave, with \<open>r\<close> its result, \<open>event'\<close> the event after it and \<open>c\<close> the text it appended.
  Behind the gate (the channel is the metadata channel or is not ready, or the event is
  already dumped): success, the event as it was, nothing appended. Past it, on success:
  the flag set and a whole block; on failure: the event as it was and nothing, or a text
  that starts with the opening lines of the block.
\<close>

definition event_outcome ::
  "ust_registry_channel \<Rightarrow> ust_registry_event \<Rightarrow> ret \<Rightarrow> ust_registry_event \<Rightarrow> string \<Rightarrow>
   bool" where
  "event_outcome chan event r event' c \<longleftrightarrow>
     (if chan_id chan = - 1 \<or> \<not> chan_metadata_dumped chan \<or> event_metadata_dumped event
      then r = None \<and> event' = event \<and> c = []
      else if r = None
        then event' = event\<lparr>event_metadata_dumped := True\<rparr> \<and> block_shaped chan event c
        else event' = event \<and> (c = [] \<or> prefix (event_open_text chan event) c))"

text \<open>An event without fields, and a channel with three of them, registered as 5, 1, 3.\<close>

definition plain_event :: "string \<Rightarrow> 32 word \<Rightarrow> ust_registry_event" where
  "plain_event nm i =
     \<lparr>ev_name = nm, ev_id = i, loglevel_value = 13, model_emf_uri = None, ev_fields = [],
      event_metadata_dumped = False\<rparr>"

definition example_channel :: ust_registry_channel where
  "example_channel =
     \<lparr>chan_id = 0, header_type = LTTNG_UST_CTL_CHANNEL_HEADER_COMPACT, ctx_fields = None,
      chan_metadata_dumped = False,
      events = [plain_event ''e'' 5, plain_event ''a'' 1, plain_event ''c'' 3]\<rparr>"

text \<open>A channel without events; the internal metadata channel; a channel whose one event
  declares a structure with a field.\<close>

definition empty_channel :: ust_registry_channel where
  "empty_channel =
     \<lparr>chan_id = 0, header_type = LTTNG_UST_CTL_CHANNEL_HEADER_COMPACT, ctx_fields = None,
      chan_metadata_dumped = False, events = []\<rparr>"

definition metadata_channel :: ust_registry_channel where
  "metadata_channel =
     \<lparr>chan_id = - 1, header_type = LTTNG_UST_CTL_CHANNEL_HEADER_COMPACT, ctx_fields = None,
      chan_metadata_dumped = False, events = [example_event]\<rparr>"

definition struct_event :: ust_registry_event where
  "struct_event =
     \<lparr>ev_name = ''bad'', ev_id = 0, loglevel_value = 13, model_emf_uri = None,
      ev_fields = [\<lparr>field_name = ''s'', field_type = lttng_ust_ctl_atype_struct 1\<rparr>],
      event_metadata_dumped = False\<rparr>"

definition struct_channel :: ust_registry_channel where
  "struct_channel =
     \<lparr>chan_id = 0, header_type = LTTNG_UST_CTL_CHANNEL_HEADER_COMPACT, ctx_fields = None,
      chan_metadata_dumped = False, events = [struct_event]\<rparr>"

section \<open>The failures of the walker, as the specification words them\<close>

text \<open>The slot \<open>i\<close> of the list holds an integer descriptor.\<close>

definition integer_slot :: "lttng_ust_ctl_field list \<Rightarrow> nat \<Rightarrow> bool" where
  "integer_slot flds i =
     (case field_type (flds ! i) of lttng_ust_ctl_atype_integer t \<Rightarrow> True | _ \<Rightarrow> False)"

text \<open>
  The descriptors that take their element or container type from the slot that follows
  them: the nestable array, the nestable sequence and the nestable enumeration.
\<close>

definition needs_next_slot :: "lttng_ust_ctl_type \<Rightarrow> bool" where
  "needs_next_slot t =
     (case t of
        lttng_ust_ctl_atype_array_nestable len al \<Rightarrow> True
      | lttng_ust_ctl_atype_sequence_nestable ln al \<Rightarrow> True
      | lttng_ust_ctl_atype_enum_nestable nm eid \<Rightarrow> True
      | _ \<Rightarrow> False)"

text \<open>
  Out of slots: the cursor is at the end of the list, or the descriptor under it needs the
  next slot and there is none.
\<close>

definition out_of_slots :: "lttng_ust_ctl_field list \<Rightarrow> nat \<Rightarrow> bool" where
  "out_of_slots flds it \<longleftrightarrow>
     (if length flds \<le> it then True
      else needs_next_slot (field_type (flds ! it)) \<and> length flds \<le> it + 1)"

text \<open>
  An unsupported shape: a structure that declares fields, an unknown type tag, or a
  descriptor whose next slot is there and does not hold an integer.
\<close>

definition unsupported_shape :: "lttng_ust_ctl_field list \<Rightarrow> nat \<Rightarrow> bool" where
  "unsupported_shape flds it \<longleftrightarrow>
     it < length flds \<and>
     (case field_type (flds ! it) of
        lttng_ust_ctl_atype_struct n \<Rightarrow> n \<noteq> 0
      | lttng_ust_ctl_atype_struct_nestable n al \<Rightarrow> n \<noteq> 0
      | lttng_ust_ctl_atype_other tag \<Rightarrow> True
      | lttng_ust_ctl_atype_array_nestable len al \<Rightarrow>
          it + 1 < length flds \<and> \<not> integer_slot flds (it + 1)
      | lttng_ust_ctl_atype_sequence_nestable ln al \<Rightarrow>
          it + 1 < length flds \<and> \<not> integer_slot flds (it + 1)
      | lttng_ust_ctl_atype_enum_nestable nm eid \<Rightarrow>
          it + 1 < length flds \<and> \<not> integer_slot flds (it + 1)
      | _ \<Rightarrow> False)"

text \<open>A legacy array or sequence whose element type is not an integer.\<close>

definition integer_element :: "lttng_ust_ctl_basic_type \<Rightarrow> bool" where
  "integer_element b = (case b of basic_integer t \<Rightarrow> True | _ \<Rightarrow> False)"

definition unsupported_element :: "lttng_ust_ctl_field list \<Rightarrow> nat \<Rightarrow> bool" where
  "unsupported_element flds it \<longleftrightarrow>
     it < length flds \<and>
     (case field_type (flds ! it) of
        lttng_ust_ctl_atype_array elem len \<Rightarrow> \<not> integer_element elem
      | lttng_ust_ctl_atype_sequence lt elem \<Rightarrow> \<not> integer_element elem
      | _ \<Rightarrow> False)"

text \<open>
  The slot \<open>it\<close> holds a variant with \<open>nr\<close> choices, the tag \<open>tag\<close> and the alignment \<open>al\<close>
  (none for the legacy variant).
\<close>

definition variant_at ::
  "lttng_ust_ctl_field list \<Rightarrow> nat \<Rightarrow> nat \<Rightarrow> string \<Rightarrow> nat \<Rightarrow> bool" where
  "variant_at flds it nr tag al \<longleftrightarrow>
     it < length flds \<and>
     (field_type (flds ! it) = lttng_ust_ctl_atype_variant nr tag \<and> al = 0 \<or>
      field_type (flds ! it) = lttng_ust_ctl_atype_variant_nestable nr tag al)"

text \<open>
  \<open>walk_times k\<close>: the walker called \<open>k\<close> times in a row, each call from the session and
  the cursor that the call before left, up to the first call that fails.
\<close>

fun walk_times ::
  "nat \<Rightarrow> ust_registry_session \<Rightarrow> lttng_ust_ctl_field list \<Rightarrow> nat \<Rightarrow> nat \<Rightarrow> walk" where
  "walk_times 0 s flds it nesting = (None, s, it)"
| "walk_times (Suc k) s flds it nesting =
     (case lttng_field_statedump s flds it nesting of
        (Some e, s1, it1) \<Rightarrow> (Some e, s1, it1)
      | (None, s1, it1) \<Rightarrow> walk_times k s1 flds it1 nesting)"

text \<open>A variant with three choices followed by one integer, and a structure with a field.\<close>

definition short_variant :: "lttng_ust_ctl_field list" where
  "short_variant =
     [\<lparr>field_name = ''v'', field_type = lttng_ust_ctl_atype_variant 3 ''tag''\<rparr>,
      \<lparr>field_name = ''x'', field_type = lttng_ust_ctl_atype_integer example_container\<rparr>]"

section \<open>Properties of the buffer\<close>

subsection \<open>The order of a count\<close>

lemma and_even_odd: "(2 * a) AND (2 * b + 1) = 2 * (a AND (b::nat))"
  by (subst and_nat_rec) simp

lemma and_odd_even: "(2 * a + 1) AND (2 * b) = 2 * (a AND (b::nat))"
  by (subst and_nat_rec) simp

lemma fls_bounds: "0 < n \<Longrightarrow> 2 ^ (lttng_fls n - 1) \<le> n \<and> n < 2 ^ lttng_fls n"
proof (induction n rule: lttng_fls.induct)
  case (1 n)
  show ?case
  proof (cases "n div 2 = 0")
    case True
    with "1.prems" have "n = 1" by presburger
    then show ?thesis by (simp add: lttng_fls.simps)
  next
    case False
    then have pos: "0 < n div 2" by simp
    from "1.IH" "1.prems" pos
    have ih: "2 ^ (lttng_fls (n div 2) - 1) \<le> n div 2" "n div 2 < 2 ^ lttng_fls (n div 2)"
      by auto
    have fpos: "0 < lttng_fls (n div 2)"
      using pos by (subst lttng_fls.simps) simp
    have eq: "lttng_fls n = Suc (lttng_fls (n div 2))"
      using "1.prems" by (subst lttng_fls.simps) simp
    have p2: "(2::nat) ^ (lttng_fls n - 1) = 2 * 2 ^ (lttng_fls (n div 2) - 1)"
      using fpos eq by (cases "lttng_fls (n div 2)") auto
    have "2 * (n div 2) \<le> n" by simp
    with ih(1) p2 have lo: "2 ^ (lttng_fls n - 1) \<le> n" by linarith
    have "n < 2 * (n div 2) + 2" by presburger
    with ih(2) eq have hi: "n < 2 ^ lttng_fls n" by simp
    from lo hi show ?thesis by simp
  qed
qed

lemma and_pred_pow2: "0 < n \<Longrightarrow> (n AND (n - 1) = 0) \<longleftrightarrow> n = 2 ^ (lttng_fls n - 1)"
proof (induction n rule: lttng_fls.induct)
  case (1 n)
  show ?case
  proof (cases "n div 2 = 0")
    case True
    with "1.prems" have "n = 1" by presburger
    then show ?thesis by (simp add: lttng_fls.simps)
  next
    case False
    then have pos: "0 < n div 2" by simp
    have fpos: "0 < lttng_fls (n div 2)"
      using pos by (subst lttng_fls.simps) simp
    have eq: "lttng_fls n = Suc (lttng_fls (n div 2))"
      using "1.prems" by (subst lttng_fls.simps) simp
    have p2: "(2::nat) ^ (lttng_fls n - 1) = 2 * 2 ^ (lttng_fls (n div 2) - 1)"
      using fpos eq by (cases "lttng_fls (n div 2)") auto
    from "1.IH" "1.prems" pos
    have ih: "(n div 2 AND (n div 2 - 1) = 0) \<longleftrightarrow> n div 2 = 2 ^ (lttng_fls (n div 2) - 1)"
      by auto
    show ?thesis
    proof (cases "even n")
      case True
      then obtain m where m: "n = 2 * m" by (auto elim: evenE)
      with pos have mpos: "0 < m" by simp
      have "n - 1 = 2 * (m - 1) + 1" using m mpos by simp
      then have "n AND (n - 1) = 2 * (m AND (m - 1))"
        using m and_even_odd [of m "m - 1"] by simp
      with ih m p2 show ?thesis by auto
    next
      case False
      then obtain m where m: "n = 2 * m + 1" by (auto elim: oddE)
      with pos have mpos: "0 < m" by simp
      have "n AND (n - 1) = 2 * (m AND m)"
        using m and_odd_even [of m m] by simp
      then have nz: "n AND (n - 1) \<noteq> 0" using mpos by simp
      have "odd n" using False .
      moreover have "even ((2::nat) * 2 ^ (lttng_fls (n div 2) - 1))" by simp
      ultimately have "n \<noteq> 2 ^ (lttng_fls n - 1)" using p2 by metis
      with nz show ?thesis by simp
    qed
  qed
qed

lemma get_count_order_spec:
  assumes "0 < n" "n < 2 ^ 32"
  shows "\<exists>k. get_count_order n = Some k \<and> n \<le> 2 ^ k \<and> (\<forall>j. n \<le> 2 ^ j \<longrightarrow> k \<le> j)"
proof -
  have m1: "(n + 2 ^ 32 - 1) mod 2 ^ 32 = n - 1"
    using assms by (simp add: mod_if)
  have m0: "n mod 2 ^ 32 = n" using assms by simp
  from fls_bounds [OF assms(1)]
  have b: "2 ^ (lttng_fls n - 1) \<le> n" "n < 2 ^ lttng_fls n" by auto
  have fpos: "0 < lttng_fls n" using assms(1) by (subst lttng_fls.simps) simp
  show ?thesis
  proof (cases "n AND (n - 1) = 0")
    case True
    with and_pred_pow2 [OF assms(1)] have e: "n = 2 ^ (lttng_fls n - 1)" by simp
    have g: "get_count_order n = Some (lttng_fls n - 1)"
      using True fpos m0 m1 by (simp add: get_count_order_def Let_def)
    have "\<And>j. n \<le> 2 ^ j \<Longrightarrow> lttng_fls n - 1 \<le> j"
    proof -
      fix j assume "n \<le> 2 ^ j"
      with e have "(2::nat) ^ (lttng_fls n - 1) \<le> 2 ^ j" by simp
      then show "lttng_fls n - 1 \<le> j" by simp
    qed
    with g e show ?thesis by auto
  next
    case False
    with and_pred_pow2 [OF assms(1)] have ne: "n \<noteq> 2 ^ (lttng_fls n - 1)" by simp
    have g: "get_count_order n = Some (lttng_fls n)"
      using False fpos m0 m1 by (simp add: get_count_order_def Let_def)
    have "\<And>j. n \<le> 2 ^ j \<Longrightarrow> lttng_fls n \<le> j"
    proof -
      fix j assume le: "n \<le> 2 ^ j"
      show "lttng_fls n \<le> j"
      proof (rule ccontr)
        assume "\<not> lttng_fls n \<le> j"
        then have "j \<le> lttng_fls n - 1" by simp
        then have "(2::nat) ^ j \<le> 2 ^ (lttng_fls n - 1)" by simp
        with le b(1) ne show False by simp
      qed
    qed
    with g b show ?thesis by auto
  qed
qed

subsection \<open>One reservation\<close>

lemma heap_alloc_frame:
  "heap_alloc s = (ok, s1) \<Longrightarrow>
     metadata s1 = metadata s \<and> metadata_alloc_len s1 = metadata_alloc_len s \<and>
     metadata_len s1 = metadata_len s \<and> metadata_fd s1 = metadata_fd s \<and>
     metadata_file s1 = metadata_file s \<and> byte_order s1 = byte_order s \<and>
     enums s1 = enums s \<and> write_script s1 = write_script s"
  by (auto simp: heap_alloc_def split: list.splits)

lemma reserve_limit:
  assumes "metadata_len s < 2 ^ 31" "len + 2 ^ 31 \<le> 2 ^ 64"
    and "metadata_len s + len > 2 ^ 31 - 1 \<or> 2 * metadata_alloc_len s > 2 ^ 31 - 1"
    and "metadata_alloc_len s \<le> 2 ^ 31"
  shows "metadata_reserve s len = (Inl EINVAL, s)"
proof -
  have a: "(metadata_len s + len) mod 2 ^ 64 = metadata_len s + len"
    using assms(1,2) by simp
  have b: "(metadata_alloc_len s * 2) mod 2 ^ 64 = 2 * metadata_alloc_len s"
    using assms(4) by simp
  show ?thesis
    using assms(3) unfolding metadata_reserve_def Let_def a b UINT32_MAX_def
    by auto
qed

lemma reserve_fits:
  assumes "metadata_len s < 2 ^ 31" "len + 2 ^ 31 \<le> 2 ^ 64"
    and "metadata_len s + len \<le> 2 ^ 31 - 1" "2 * metadata_alloc_len s \<le> 2 ^ 31 - 1"
    and "metadata_len s + len \<le> metadata_alloc_len s"
  shows "metadata_reserve s len =
           (Inr (metadata_len s), s\<lparr>metadata_len := metadata_len s + len\<rparr>)"
proof -
  have a: "(metadata_len s + len) mod 2 ^ 64 = metadata_len s + len"
    using assms(1,2) by simp
  have b: "(metadata_alloc_len s * 2) mod 2 ^ 64 = 2 * metadata_alloc_len s"
    using assms(4) by simp
  show ?thesis
    using assms(3,4,5) unfolding metadata_reserve_def Let_def a b UINT32_MAX_def
    by auto
qed

lemma reserve_grows:
  assumes "length (metadata s) = metadata_alloc_len s"
    and "metadata_len s < 2 ^ 31" "len + 2 ^ 31 \<le> 2 ^ 64"
    and "metadata_len s + len \<le> 2 ^ 31 - 1" "2 * metadata_alloc_len s \<le> 2 ^ 31 - 1"
    and "metadata_alloc_len s < metadata_len s + len"
    and "heap_alloc s = (ok, s1)"
  shows "\<exists>j. metadata_len s + len \<le> 2 ^ j \<and> (\<forall>i. metadata_len s + len \<le> 2 ^ i \<longrightarrow> j \<le> i) \<and>
           j \<le> 31 \<and>
           metadata_reserve s len =
             (if ok then
                (Inr (metadata_len s),
                 s1\<lparr>metadata := metadata s @
                      replicate (max (2 ^ j) (2 * metadata_alloc_len s) - metadata_alloc_len s)
                        (CHR 0x00),
                    metadata_alloc_len := max (2 ^ j) (2 * metadata_alloc_len s),
                    metadata_len := metadata_len s + len\<rparr>)
              else (Inl ENOMEM, s1))"
proof -
  let ?n = "metadata_len s + len"
  let ?A = "metadata_alloc_len s"
  have a: "(metadata_len s + len) mod 2 ^ 64 = ?n"
    using assms(2,3) by simp
  have b: "(?A * 2) mod 2 ^ 64 = 2 * ?A"
    using assms(5) by simp
  have npos: "0 < ?n" using assms(6) by linarith
  have n32: "?n < 2 ^ 32" using assms(4) by simp
  from get_count_order_spec [OF npos n32]
  obtain j where j: "get_count_order ?n = Some j" "?n \<le> 2 ^ j" "\<forall>i. ?n \<le> 2 ^ i \<longrightarrow> j \<le> i"
    by blast
  have "?n \<le> 2 ^ 31" using assms(4) by simp
  with j(3) have j31: "j \<le> 31" by blast
  then have "(2::nat) ^ j \<le> 2 ^ 31" by (rule power_increasing) simp
  then have c: "(2::nat) ^ j mod 2 ^ 32 = 2 ^ j" by simp
  then have c': "(2::nat) ^ j mod 4294967296 = 2 ^ j" by simp
  note fr = heap_alloc_frame [OF assms(7)]
  have r: "memset (realloc (metadata s) (max (2 ^ j) (2 * ?A))) ?A (CHR 0x00)
             (max (2 ^ j) (2 * ?A) - ?A)
           = metadata s @ replicate (max (2 ^ j) (2 * ?A) - ?A) (CHR 0x00)"
    using assms(1) by (simp add: memset_def realloc_def)
  have "metadata_reserve s len =
             (if ok then
                (Inr (metadata_len s),
                 s1\<lparr>metadata := metadata s @
                      replicate (max (2 ^ j) (2 * ?A) - ?A) (CHR 0x00),
                    metadata_alloc_len := max (2 ^ j) (2 * ?A),
                    metadata_len := ?n\<rparr>)
              else (Inl ENOMEM, s1))"
    using assms(4,5,6,7) j(1) r fr
    unfolding metadata_reserve_def Let_def a b c UINT32_MAX_def
    by (simp add: mult.commute c')
  with j j31 show ?thesis by blast
qed

lemma reserve_success:
  assumes inv: "session_inv s" and len: "len + 2 ^ 31 \<le> 2 ^ 64"
    and res: "metadata_reserve s len = (Inr off, s')"
  shows "off = metadata_len s \<and> metadata_len s' = metadata_len s + len \<and>
         session_inv s' \<and> metadata_alloc_len s \<le> metadata_alloc_len s' \<and>
         metadata_len s + len \<le> 2 ^ 31 - 1 \<and>
         (metadata_alloc_len s < metadata_len s + len \<longrightarrow>
            (\<exists>j. metadata_len s + len \<le> 2 ^ j \<and>
                 (\<forall>i. metadata_len s + len \<le> 2 ^ i \<longrightarrow> j \<le> i) \<and>
                 metadata_alloc_len s' = max (2 ^ j) (2 * metadata_alloc_len s)) \<and>
            (\<forall>i. metadata_alloc_len s \<le> i \<and> i < metadata_alloc_len s' \<longrightarrow>
                 metadata s' ! i = CHR 0x00))"
proof -
  from inv have i: "length (metadata s) = metadata_alloc_len s"
    "metadata_len s \<le> metadata_alloc_len s" "metadata_alloc_len s \<le> 2 ^ 31"
    "metadata_len s < 2 ^ 31"
    by (simp_all add: session_inv_def)
  have nolimit: "\<not> (metadata_len s + len > 2 ^ 31 - 1 \<or> 2 * metadata_alloc_len s > 2 ^ 31 - 1)"
    using reserve_limit [OF i(4) len _ i(3)] res by fastforce
  then have lim: "metadata_len s + len \<le> 2 ^ 31 - 1" "2 * metadata_alloc_len s \<le> 2 ^ 31 - 1"
    by simp_all
  show ?thesis
  proof (cases "metadata_len s + len \<le> metadata_alloc_len s")
    case True
    from reserve_fits [OF i(4) len lim True] res
    have "off = metadata_len s" "s' = s\<lparr>metadata_len := metadata_len s + len\<rparr>" by simp_all
    with True i lim show ?thesis by (simp add: session_inv_def)
  next
    case False
    then have g: "metadata_alloc_len s < metadata_len s + len" by simp
    obtain ok s1 where h: "heap_alloc s = (ok, s1)" by (cases "heap_alloc s")
    from reserve_grows [OF i(1) i(4) len lim g h]
    obtain j where j: "metadata_len s + len \<le> 2 ^ j"
      "\<forall>i. metadata_len s + len \<le> 2 ^ i \<longrightarrow> j \<le> i" "j \<le> 31"
      "metadata_reserve s len =
             (if ok then
                (Inr (metadata_len s),
                 s1\<lparr>metadata := metadata s @
                      replicate (max (2 ^ j) (2 * metadata_alloc_len s) - metadata_alloc_len s)
                        (CHR 0x00),
                    metadata_alloc_len := max (2 ^ j) (2 * metadata_alloc_len s),
                    metadata_len := metadata_len s + len\<rparr>)
              else (Inl ENOMEM, s1))"
      by blast
    let ?A = "max (2 ^ j) (2 * metadata_alloc_len s)"
    from j(4) res have ok: ok by (cases ok) simp_all
    with j(4) res have off: "off = metadata_len s"
      and s': "s' = s1\<lparr>metadata := metadata s @ replicate (?A - metadata_alloc_len s) (CHR 0x00),
                    metadata_alloc_len := ?A,
                    metadata_len := metadata_len s + len\<rparr>"
      by simp_all
    have "(2::nat) ^ j \<le> 2 ^ 31" using j(3) by (rule power_increasing) simp
    with lim(2) have A31: "?A \<le> 2 ^ 31" by simp
    have Age: "metadata_alloc_len s \<le> ?A" by simp
    have zero: "\<forall>k. metadata_alloc_len s \<le> k \<and> k < ?A \<longrightarrow>
        (metadata s @ replicate (?A - metadata_alloc_len s) (CHR 0x00)) ! k = CHR 0x00"
      using i(1) by (auto simp: nth_append)
    have inv': "session_inv s'"
      using s' i(1) Age A31 j(1) lim(1) by (simp add: session_inv_def)
    show ?thesis
      using off s' inv' Age lim(1) j(1,2) zero g by auto
  qed
qed

lemma reserve_failure:
  assumes inv: "session_inv s" and len: "len + 2 ^ 31 \<le> 2 ^ 64"
    and res: "metadata_reserve s len = (Inl e, s')"
  shows "metadata s' = metadata s \<and> metadata_alloc_len s' = metadata_alloc_len s \<and>
         metadata_len s' = metadata_len s \<and> metadata_fd s' = metadata_fd s \<and>
         metadata_file s' = metadata_file s \<and> byte_order s' = byte_order s \<and>
         enums s' = enums s \<and> write_script s' = write_script s \<and>
         (e = EINVAL \<and> s' = s \<and>
            (metadata_len s + len > 2 ^ 31 - 1 \<or> 2 * metadata_alloc_len s > 2 ^ 31 - 1) \<or>
          e = ENOMEM \<and> heap_alloc s = (False, s') \<and>
            metadata_len s + len \<le> 2 ^ 31 - 1 \<and> 2 * metadata_alloc_len s \<le> 2 ^ 31 - 1 \<and>
            metadata_alloc_len s < metadata_len s + len)"
proof -
  from inv have i: "length (metadata s) = metadata_alloc_len s"
    "metadata_len s \<le> metadata_alloc_len s" "metadata_alloc_len s \<le> 2 ^ 31"
    "metadata_len s < 2 ^ 31"
    by (simp_all add: session_inv_def)
  show ?thesis
  proof (cases "metadata_len s + len > 2 ^ 31 - 1 \<or> 2 * metadata_alloc_len s > 2 ^ 31 - 1")
    case True
    from reserve_limit [OF i(4) len True i(3)] res True show ?thesis by simp
  next
    case False
    then have lim: "metadata_len s + len \<le> 2 ^ 31 - 1" "2 * metadata_alloc_len s \<le> 2 ^ 31 - 1"
      by simp_all
    show ?thesis
    proof (cases "metadata_len s + len \<le> metadata_alloc_len s")
      case True
      from reserve_fits [OF i(4) len lim True] res show ?thesis by simp
    next
      case nofit: False
      then have g: "metadata_alloc_len s < metadata_len s + len" by simp
      obtain ok s1 where h: "heap_alloc s = (ok, s1)" by (cases "heap_alloc s")
      from reserve_grows [OF i(1) i(4) len lim g h] res
      have "\<not> ok" "e = ENOMEM" "s' = s1" by (auto split: if_splits)
      with h heap_alloc_frame [OF h] lim g show ?thesis by simp
    qed
  qed
qed

lemma reserve_inv:
  assumes "session_inv s" "len + 2 ^ 31 \<le> 2 ^ 64" "metadata_reserve s len = (r, s')"
  shows "session_inv s'"
proof (cases r)
  case (Inl e)
  with reserve_failure [OF assms(1,2)] assms(3) assms(1) show ?thesis
    by (simp add: session_inv_def)
next
  case (Inr off)
  with reserve_success [OF assms(1,2)] assms(3) show ?thesis by simp
qed

lemma reserve_seq_append:
  "reserve_seq s (xs @ ys) =
     (let (rs, s1) = reserve_seq s xs; (rs', s2) = reserve_seq s1 ys in (rs @ rs', s2))"
  by (induction xs arbitrary: s) (auto split: prod.splits)

lemma reserve_seq_length: "reserve_seq s xs = (rs, s') \<Longrightarrow> length rs = length xs"
  by (induction xs arbitrary: s rs) (auto split: prod.splits)

lemma reserve_seq_prefix:
  assumes "session_inv s" "\<forall>l \<in> set xs. l + 2 ^ 31 \<le> 2 ^ 64"
    and "reserve_seq s xs = (rs, s1)" "list_all succeeded rs"
  shows "session_inv s1 \<and> metadata_len s1 = metadata_len s + sum_list xs"
  using assms
proof (induction xs arbitrary: s rs s1)
  case Nil
  then show ?case by simp
next
  case (Cons x xs)
  obtain r sa where r: "metadata_reserve s x = (r, sa)" by (cases "metadata_reserve s x")
  obtain rs' sb where rs': "reserve_seq sa xs = (rs', sb)" by (cases "reserve_seq sa xs")
  from Cons.prems(3) r rs' have eq: "rs = r # rs'" "s1 = sb" by auto
  with Cons.prems(4) have sr: "succeeded r" and all: "list_all succeeded rs'" by simp_all
  from sr obtain off where off: "r = Inr off" by (cases r) (auto simp: succeeded_def)
  from Cons.prems(2) have x: "x + 2 ^ 31 \<le> 2 ^ 64" by simp
  from reserve_success [OF Cons.prems(1) x] r off
  have sa: "session_inv sa" "metadata_len sa = metadata_len s + x" by simp_all
  from Cons.IH [OF sa(1) _ rs' all] Cons.prems(2) sa(2) eq show ?case by simp
qed

text \<open>
  C1. Take any run of reservations that all succeed, from a session that satisfies the
  buffer invariant, with every length at most \<open>2 ^ 64 - 2 ^ 31\<close> (a \<^verbatim>\<open>size_t\<close> whose
  sum with the cursor cannot wrap). For the call number \<open>k\<close>, with \<open>before\<close> and \<open>after\<close>
  the sessions around it: the offset returned is the cursor of the first session plus the
  sum of the lengths reserved before, which is the write cursor before the call; the
  allocation length does not shrink; and when the new total is beyond the allocation
  length, the new allocation length is the larger of twice the old one and \<open>2 ^ j\<close>, the
  least power of two that is at least the new total, and every byte from the old
  allocation length up to the new one is zero.
\<close>

theorem reserve_seq_offsets_and_growth:
  assumes inv: "session_inv s"
    and lens: "\<forall>l \<in> set lens. l + 2 ^ 31 \<le> 2 ^ 64"
    and run: "reserve_seq s lens = (rs, s')"
    and ok: "list_all succeeded rs"
    and k: "k < length lens"
    and before: "before = snd (reserve_seq s (take k lens))"
    and after: "after = snd (reserve_seq s (take (Suc k) lens))"
  shows "rs ! k = Inr (metadata_len s + sum_list (take k lens)) \<and>
         metadata_len before = metadata_len s + sum_list (take k lens) \<and>
         metadata_alloc_len before \<le> metadata_alloc_len after \<and>
         (metadata_alloc_len before < metadata_len before + lens ! k \<longrightarrow>
            (\<exists>j. metadata_len before + lens ! k \<le> 2 ^ j \<and>
                 (\<forall>i. metadata_len before + lens ! k \<le> 2 ^ i \<longrightarrow> j \<le> i) \<and>
                 metadata_alloc_len after = max (2 ^ j) (2 * metadata_alloc_len before)) \<and>
            (\<forall>i. metadata_alloc_len before \<le> i \<and> i < metadata_alloc_len after \<longrightarrow>
                 metadata after ! i = CHR 0x00))"
proof -
  let ?pre = "take k lens"
  let ?x = "lens ! k"
  let ?post = "drop (Suc k) lens"
  have split: "lens = ?pre @ ?x # ?post" using k by (simp add: id_take_nth_drop)
  obtain r1 s1 where p1: "reserve_seq s ?pre = (r1, s1)" by (cases "reserve_seq s ?pre")
  obtain r s2 where p2: "metadata_reserve s1 ?x = (r, s2)" by (cases "metadata_reserve s1 ?x")
  obtain r3 s3 where p3: "reserve_seq s2 ?post = (r3, s3)" by (cases "reserve_seq s2 ?post")
  have "reserve_seq s lens = (r1 @ r # r3, s3)"
    using p1 p2 p3 by (subst split) (simp add: reserve_seq_append)
  with run have rs: "rs = r1 @ r # r3" by simp
  have l1: "length r1 = k" using reserve_seq_length [OF p1] k by simp
  from ok rs have ok1: "list_all succeeded r1" and okr: "succeeded r" by simp_all
  then obtain off where off: "r = Inr off" by (cases r) (auto simp: succeeded_def)
  have lens1: "\<forall>l \<in> set ?pre. l + 2 ^ 31 \<le> 2 ^ 64"
    using lens by (meson in_set_takeD)
  from reserve_seq_prefix [OF inv lens1 p1 ok1]
  have s1: "session_inv s1" "metadata_len s1 = metadata_len s + sum_list ?pre" by simp_all
  have x: "?x + 2 ^ 31 \<le> 2 ^ 64" using lens k by simp
  have b: "before = s1" using before p1 by simp
  have "take (Suc k) lens = ?pre @ [?x]" using k by (simp add: take_Suc_conv_app_nth)
  then have "reserve_seq s (take (Suc k) lens) = (r1 @ [r], s2)"
    using p1 p2 by (simp add: reserve_seq_append)
  then have a: "after = s2" using after by simp
  have nth: "rs ! k = r" using rs l1 by (simp add: nth_append)
  from reserve_success [OF s1(1) x] p2 off
  show ?thesis unfolding a b nth off using s1(2) by simp
qed

lemmas reserve_eval = metadata_reserve_def get_count_order_def lttng_fls.simps heap_alloc_def
  realloc_def memset_def UINT32_MAX_def Let_def fresh_session_def

theorem reserve_seq_offsets_and_growth_witness:
  "session_inv fresh_session \<and>
   list_all succeeded (fst (reserve_seq fresh_session [5, 3, 9])) \<and>
   fst (reserve_seq fresh_session [5, 3, 9]) ! 2 = Inr 8 \<and>
   metadata_len (snd (reserve_seq fresh_session (take 2 [5, 3, 9]))) = 8 \<and>
   metadata_alloc_len (snd (reserve_seq fresh_session (take 2 [5, 3, 9]))) = 8 \<and>
   metadata_alloc_len (snd (reserve_seq fresh_session (take 3 [5, 3, 9]))) = 32 \<and>
   metadata (snd (reserve_seq fresh_session (take 3 [5, 3, 9]))) ! 8 = CHR 0x00"
proof -
  have inv: "session_inv fresh_session"
    by (simp add: session_inv_def fresh_session_def)
  have lens: "\<forall>l \<in> set [5, 3, 9 :: nat]. l + 2 ^ 31 \<le> 2 ^ 64" by simp
  obtain rs s' where run: "reserve_seq fresh_session [5, 3, 9] = (rs, s')"
    by (cases "reserve_seq fresh_session [5, 3, 9]")
  have rs: "rs = [Inr 0, Inr 5, Inr 8]"
    using run by (simp add: reserve_eval)
  have ok: "list_all succeeded rs" by (simp add: rs succeeded_def)
  have b: "metadata_len (snd (reserve_seq fresh_session (take 2 [5, 3, 9]))) = 8"
    "metadata_alloc_len (snd (reserve_seq fresh_session (take 2 [5, 3, 9]))) = 8"
    by (simp_all add: reserve_eval)
  from reserve_seq_offsets_and_growth [OF inv lens run ok, of 2, OF _ refl refl]
  have "rs ! 2 = Inr (metadata_len fresh_session + sum_list (take 2 [5, 3, 9]))"
    and "metadata_alloc_len (snd (reserve_seq fresh_session (take 2 [5, 3, 9])))
           < metadata_len (snd (reserve_seq fresh_session (take 2 [5, 3, 9]))) + [5, 3, 9] ! 2 \<longrightarrow>
         (\<forall>i. metadata_alloc_len (snd (reserve_seq fresh_session (take 2 [5, 3, 9]))) \<le> i \<and>
              i < metadata_alloc_len (snd (reserve_seq fresh_session (take (Suc 2) [5, 3, 9]))) \<longrightarrow>
              metadata (snd (reserve_seq fresh_session (take (Suc 2) [5, 3, 9]))) ! i = CHR 0x00)"
    by simp_all
  moreover have al: "metadata_alloc_len (snd (reserve_seq fresh_session (take 3 [5, 3, 9]))) = 32"
    by (simp add: reserve_eval)
  ultimately have "rs ! 2 = Inr 8"
    and "metadata (snd (reserve_seq fresh_session (take 3 [5, 3, 9]))) ! 8 = CHR 0x00"
    using b by (simp_all add: fresh_session_def)
  with inv ok run b al show ?thesis by simp
qed

text \<open>
  C9, as amended. On a session that satisfies the buffer invariant, and for a length that
  cannot wrap the \<^verbatim>\<open>size_t\<close> sum, \<^verbatim>\<open>metadata_reserve\<close> fails with \<^verbatim>\<open>-EINVAL\<close> (the format
  limit) exactly when the new total exceeds \<open>2 ^ 31 - 1\<close> or twice the current allocation
  length exceeds \<open>2 ^ 31 - 1\<close>; it fails with \<^verbatim>\<open>-ENOMEM\<close> exactly when neither holds, the
  buffer has to grow and the allocator fails; in every other case it succeeds and returns
  the write cursor. On a failure the write cursor, the allocation length and the buffer
  are unchanged.
\<close>

theorem reserve_fails_exactly:
  assumes inv: "session_inv s" and len: "len + 2 ^ 31 \<le> 2 ^ 64"
    and res: "metadata_reserve s len = (r, s')"
  shows "(r = Inl EINVAL \<longleftrightarrow>
            2 ^ 31 - 1 < metadata_len s + len \<or> 2 ^ 31 - 1 < 2 * metadata_alloc_len s) \<and>
         (r = Inl ENOMEM \<longleftrightarrow>
            metadata_len s + len \<le> 2 ^ 31 - 1 \<and> 2 * metadata_alloc_len s \<le> 2 ^ 31 - 1 \<and>
            metadata_alloc_len s < metadata_len s + len \<and> \<not> fst (heap_alloc s)) \<and>
         (r = Inl EINVAL \<or> r = Inl ENOMEM \<or> r = Inr (metadata_len s)) \<and>
         (r \<noteq> Inr (metadata_len s) \<longrightarrow>
            metadata_len s' = metadata_len s \<and>
            metadata_alloc_len s' = metadata_alloc_len s \<and> metadata s' = metadata s)"
proof -
  from inv have i: "length (metadata s) = metadata_alloc_len s"
    "metadata_len s \<le> metadata_alloc_len s" "metadata_alloc_len s \<le> 2 ^ 31"
    "metadata_len s < 2 ^ 31"
    by (simp_all add: session_inv_def)
  show ?thesis
  proof (cases "2 ^ 31 - 1 < metadata_len s + len \<or> 2 ^ 31 - 1 < 2 * metadata_alloc_len s")
    case True
    from reserve_limit [OF i(4) len True i(3)] res have "r = Inl EINVAL" "s' = s" by simp_all
    with True show ?thesis by auto
  next
    case False
    then have lim: "metadata_len s + len \<le> 2 ^ 31 - 1" "2 * metadata_alloc_len s \<le> 2 ^ 31 - 1"
      by simp_all
    show ?thesis
    proof (cases "metadata_len s + len \<le> metadata_alloc_len s")
      case True
      from reserve_fits [OF i(4) len lim True] res
      have "r = Inr (metadata_len s)" by simp
      with False True show ?thesis by auto
    next
      case nofit: False
      then have g: "metadata_alloc_len s < metadata_len s + len" by simp
      obtain ok s1 where h: "heap_alloc s = (ok, s1)" by (cases "heap_alloc s")
      from reserve_grows [OF i(1) i(4) len lim g h] res
      have r: "r = (if ok then Inr (metadata_len s) else Inl ENOMEM)"
        and s': "\<not> ok \<Longrightarrow> s' = s1"
        by (auto split: if_splits)
      from heap_alloc_frame [OF h] s'
      have fr: "\<not> ok \<Longrightarrow> metadata_len s' = metadata_len s \<and>
            metadata_alloc_len s' = metadata_alloc_len s \<and> metadata s' = metadata s"
        by simp
      show ?thesis using r fr h False lim g by (cases ok) auto
    qed
  qed
qed

lemma half_gib_inv: "session_inv half_gib_session"
  by (simp add: session_inv_def half_gib_session_def)

theorem reserve_fails_exactly_witness:
  "session_inv half_gib_session \<and>
   fst (metadata_reserve half_gib_session 1) = Inl EINVAL \<and>
   metadata_len (snd (metadata_reserve half_gib_session 1)) = 2 ^ 29 + 1 \<and>
   metadata_alloc_len (snd (metadata_reserve half_gib_session 1)) = 2 ^ 30"
proof -
  obtain r s' where res: "metadata_reserve half_gib_session 1 = (r, s')"
    by (cases "metadata_reserve half_gib_session 1")
  have len: "(1::nat) + 2 ^ 31 \<le> 2 ^ 64" by simp
  from reserve_fails_exactly [OF half_gib_inv len res]
  have "r = Inl EINVAL" and "metadata_len s' = 2 ^ 29 + 1 \<and> metadata_alloc_len s' = 2 ^ 30"
    by (simp_all add: half_gib_session_def)
  with half_gib_inv res show ?thesis by simp
qed

text \<open>
  C9 as stated fails: with \<open>2 ^ 29 + 1\<close> bytes held the allocation length is \<open>2 ^ 30\<close>, and
  a reservation of one more byte is refused with \<^verbatim>\<open>-EINVAL\<close> by the guard on twice the
  allocation length, although the new total is far below \<open>2 ^ 31 - 1\<close>.
\<close>

theorem reserve_limit_counterexample:
  "\<not> (fst (metadata_reserve half_gib_session 1) = Inl EINVAL \<longleftrightarrow>
        2 ^ 31 - 1 < metadata_len half_gib_session + 1)"
proof -
  have "metadata_reserve half_gib_session 1 = (Inl EINVAL, half_gib_session)"
    by (rule reserve_limit) (simp_all add: half_gib_session_def)
  then show ?thesis by (simp add: half_gib_session_def)
qed

text \<open>The session of the counterexample is the one a single reservation leaves.\<close>

lemma half_gib_reachable:
  "snd (metadata_reserve fresh_session (2 ^ 29 + 1)) = half_gib_session"
proof -
  have h: "heap_alloc fresh_session = (True, fresh_session)"
    by (simp add: heap_alloc_def fresh_session_def)
  from reserve_grows [of fresh_session "2 ^ 29 + 1" True fresh_session, OF _ _ _ _ _ _ h]
  obtain j where j: "(2::nat) ^ 29 + 1 \<le> 2 ^ j" "\<forall>i. (2::nat) ^ 29 + 1 \<le> 2 ^ i \<longrightarrow> j \<le> i"
    "metadata_reserve fresh_session (2 ^ 29 + 1) =
       (Inr 0, fresh_session\<lparr>metadata := replicate (2 ^ j) (CHR 0x00),
          metadata_alloc_len := 2 ^ j, metadata_len := 2 ^ 29 + 1\<rparr>)"
    by (auto simp: fresh_session_def)
  from j(2) have "j \<le> 30" by simp
  moreover have "\<not> j \<le> 29"
  proof
    assume "j \<le> 29"
    then have "(2::nat) ^ j \<le> 2 ^ 29" by (rule power_increasing) simp
    with j(1) show False by simp
  qed
  ultimately have "j = 30" by simp
  with j(3) show ?thesis by (simp add: half_gib_session_def fresh_session_def)
qed

section \<open>Properties of the text emission\<close>

lemma reserve_success_buffer:
  assumes inv: "session_inv s" and len: "len + 2 ^ 31 \<le> 2 ^ 64"
    and res: "metadata_reserve s len = (Inr off, s')"
  shows "(\<exists>z. metadata s' = metadata s @ z) \<and> enums s' = enums s \<and>
         byte_order s' = byte_order s \<and> metadata_fd s' = metadata_fd s"
proof -
  from inv have i: "length (metadata s) = metadata_alloc_len s"
    "metadata_len s \<le> metadata_alloc_len s" "metadata_alloc_len s \<le> 2 ^ 31"
    "metadata_len s < 2 ^ 31"
    by (simp_all add: session_inv_def)
  from reserve_success [OF inv len res]
  have lim1: "metadata_len s + len \<le> 2 ^ 31 - 1" by simp
  have nolimit: "\<not> (metadata_len s + len > 2 ^ 31 - 1 \<or> 2 * metadata_alloc_len s > 2 ^ 31 - 1)"
    using reserve_limit [OF i(4) len _ i(3)] res by fastforce
  then have lim: "metadata_len s + len \<le> 2 ^ 31 - 1" "2 * metadata_alloc_len s \<le> 2 ^ 31 - 1"
    by simp_all
  show ?thesis
  proof (cases "metadata_len s + len \<le> metadata_alloc_len s")
    case True
    from reserve_fits [OF i(4) len lim True] res
    have "s' = s\<lparr>metadata_len := metadata_len s + len\<rparr>" by simp
    then show ?thesis by simp
  next
    case False
    then have g: "metadata_alloc_len s < metadata_len s + len" by simp
    obtain ok s1 where h: "heap_alloc s = (ok, s1)" by (cases "heap_alloc s")
    from reserve_grows [OF i(1) i(4) len lim g h] res heap_alloc_frame [OF h]
    show ?thesis by (auto split: if_splits)
  qed
qed

lemma file_append_frame:
  "metadata_file_append s str = (r, s') \<Longrightarrow>
     metadata s' = metadata s \<and> metadata_alloc_len s' = metadata_alloc_len s \<and>
     metadata_len s' = metadata_len s \<and> metadata_fd s' = metadata_fd s \<and>
     byte_order s' = byte_order s \<and> enums s' = enums s \<and> heap_script s' = heap_script s"
  by (auto simp: metadata_file_append_def lttng_write_def Let_def
      split: if_splits list.splits prod.splits)

lemma session_inv_frame:
  "session_inv s \<Longrightarrow> metadata s' = metadata s \<Longrightarrow> metadata_alloc_len s' = metadata_alloc_len s \<Longrightarrow>
   metadata_len s' = metadata_len s \<Longrightarrow> session_inv s'"
  by (simp add: session_inv_def)

lemma content_frame:
  "metadata s' = metadata s \<Longrightarrow> metadata_len s' = metadata_len s \<Longrightarrow> content s' = content s"
  by (simp add: content_def)

lemma take_memcpy:
  assumes "off + length src \<le> length buf"
  shows "take (off + length src) (memcpy buf off src) = take off buf @ src"
proof -
  have l: "length (take off buf) = off" using assms by simp
  have "take (off + length src) (take off buf @ src @ drop (off + length src) buf)
        = take off buf @ take (length src) (src @ drop (off + length src) buf)"
    by (simp only: take_append l) simp
  then show ?thesis by (simp add: memcpy_def)
qed

text \<open>What one call of \<^verbatim>\<open>lttng_metadata_printf\<close> does to the document.\<close>

lemma printf_spec:
  assumes inv: "session_inv s" and res: "lttng_metadata_printf s str = (r, s')"
  shows "session_inv s' \<and> enums s' = enums s \<and> byte_order s' = byte_order s \<and>
         metadata_fd s' = metadata_fd s \<and>
         (r = None \<longrightarrow> content s' = content s @ str) \<and>
         (content s' = content s \<or> content s' = content s @ str)"
proof -
  obtain ok s1 where h: "heap_alloc s = (ok, s1)" by (cases "heap_alloc s")
  note f1 = heap_alloc_frame [OF h]
  have inv1: "session_inv s1" using inv f1 by (simp add: session_inv_def)
  have c1: "content s1 = content s" using f1 by (simp add: content_def)
  show ?thesis
  proof (cases "\<not> ok \<or> length str > INT_MAX")
    case True
    with res h have "r = Some ENOMEM" "s' = s1"
      by (auto simp: lttng_metadata_printf_def)
    with inv1 c1 f1 show ?thesis by simp
  next
    case False
    then have ok: ok and short: "length str \<le> INT_MAX" by simp_all
    then have len: "length str + 2 ^ 31 \<le> 2 ^ 64" by (simp add: INT_MAX_def)
    obtain q s2 where q: "metadata_reserve s1 (length str) = (q, s2)"
      by (cases "metadata_reserve s1 (length str)")
    show ?thesis
    proof (cases q)
      case (Inl e)
      with res h q ok short have r: "r = Some e" "s' = s2"
        by (auto simp: lttng_metadata_printf_def)
      from reserve_failure [OF inv1 len] q Inl
      have "metadata s2 = metadata s1" "metadata_alloc_len s2 = metadata_alloc_len s1"
        "metadata_len s2 = metadata_len s1" "metadata_fd s2 = metadata_fd s1"
        "byte_order s2 = byte_order s1" "enums s2 = enums s1"
        by simp_all
      with r f1 inv1 c1 show ?thesis by (simp add: session_inv_def content_def)
    next
      case (Inr off)
      from reserve_success [OF inv1 len] q Inr
      have s2: "off = metadata_len s1" "metadata_len s2 = metadata_len s1 + length str"
        "session_inv s2" by simp_all
      from reserve_success_buffer [OF inv1 len] q Inr
      obtain z where z: "metadata s2 = metadata s1 @ z" and fr2: "enums s2 = enums s1"
        "byte_order s2 = byte_order s1" "metadata_fd s2 = metadata_fd s1" by auto
      let ?s3 = "s2\<lparr>metadata := memcpy (metadata s2) off str\<rparr>"
      from s2(3) have i2: "length (metadata s2) = metadata_alloc_len s2"
        "metadata_len s2 \<le> metadata_alloc_len s2" "metadata_alloc_len s2 \<le> 2 ^ 31"
        "metadata_len s2 < 2 ^ 31"
        by (simp_all add: session_inv_def)
      from inv1 have i1: "length (metadata s1) = metadata_alloc_len s1"
        "metadata_len s1 \<le> metadata_alloc_len s1"
        by (simp_all add: session_inv_def)
      have offlen: "off + length str \<le> length (metadata s2)" using s2 i2 by simp
      then have lenm: "length (memcpy (metadata s2) off str) = length (metadata s2)"
        by (simp add: memcpy_def)
      have inv3: "session_inv ?s3" using i2 lenm by (simp add: session_inv_def)
      have t: "take off (metadata s2) = take off (metadata s1)"
        using z s2(1) i1 by simp
      have "content ?s3 = take (off + length str) (memcpy (metadata s2) off str)"
        by (simp add: content_def s2(1,2))
      also have "\<dots> = take off (metadata s2) @ str"
        using offlen by (rule take_memcpy)
      also have "\<dots> = content s1 @ str"
        using t unfolding s2(1) by (simp add: content_def)
      finally have c3: "content ?s3 = content s1 @ str" .
      obtain r4 s4 where a: "metadata_file_append ?s3 str = (r4, s4)"
        by (cases "metadata_file_append ?s3 str")
      note f4 = file_append_frame [OF a]
      from res h q ok short Inr a have r: "r = r4" "s' = s4"
        by (auto simp: lttng_metadata_printf_def Let_def split: option.splits)
      have inv4: "session_inv s4" using inv3 f4 by (simp add: session_inv_def)
      have c4: "content s4 = content ?s3" using f4 by (simp add: content_def)
      from r inv4 c4 c3 c1 f4 fr2 f1 show ?thesis by simp
    qed
  qed
qed

lemma extends_refl: "session_inv s \<Longrightarrow> extends s s"
  by (simp add: extends_def)

lemma extends_trans: "extends s s1 \<Longrightarrow> extends s1 s2 \<Longrightarrow> extends s s2"
  by (auto simp: extends_def)

lemma extends_inv: "extends s s' \<Longrightarrow> session_inv s'"
  by (simp add: extends_def)

lemma printf_extends:
  "session_inv s \<Longrightarrow> lttng_metadata_printf s str = (r, s') \<Longrightarrow> extends s s'"
  using printf_spec [of s str r s'] by (auto simp: extends_def)

lemma printf_content:
  "session_inv s \<Longrightarrow> lttng_metadata_printf s str = (None, s') \<Longrightarrow>
     content s' = content s @ str"
  using printf_spec [of s str None s'] by simp

lemma emitterI: "(\<And>s r s'. session_inv s \<Longrightarrow> f s = (r, s') \<Longrightarrow> extends s s') \<Longrightarrow> emitter f"
  by (simp add: emitter_def)

lemma emitterD: "emitter f \<Longrightarrow> session_inv s \<Longrightarrow> f s = (r, s') \<Longrightarrow> extends s s'"
  by (simp add: emitter_def)

lemma emitter_printf [intro, simp]: "emitter (\<lambda>s. lttng_metadata_printf s str)"
  by (rule emitterI) (rule printf_extends)

lemma emitter_skip [intro, simp]: "emitter (\<lambda>s. (None, s))"
  by (rule emitterI) (simp add: extends_refl)

lemma emitter_if [intro]: "emitter f \<Longrightarrow> emitter g \<Longrightarrow> emitter (\<lambda>s. if b then f s else g s)"
  by (simp add: emitter_def)

lemma steps_extends:
  "\<forall>f \<in> set fs. emitter f \<Longrightarrow> session_inv s \<Longrightarrow> steps fs s = (r, s') \<Longrightarrow> extends s s'"
proof (induction fs arbitrary: s)
  case Nil
  then show ?case by (simp add: extends_refl)
next
  case (Cons f fs)
  obtain r1 s1 where f: "f s = (r1, s1)" by (cases "f s")
  from Cons.prems(1) have "emitter f" by simp
  from emitterD [OF this Cons.prems(2) f] have e1: "extends s s1" .
  show ?case
  proof (cases r1)
    case None
    with f Cons.prems(3) have "steps fs s1 = (r, s')" by simp
    from Cons.IH [OF _ extends_inv [OF e1] this] Cons.prems(1) have "extends s1 s'" by simp
    with e1 show ?thesis by (rule extends_trans)
  next
    case (Some e)
    with f Cons.prems(3) e1 show ?thesis by simp
  qed
qed

lemma emitter_steps [intro]: "\<forall>f \<in> set fs. emitter f \<Longrightarrow> emitter (steps fs)"
  by (rule emitterI) (rule steps_extends)

lemma emitter_steps_eta [intro]: "\<forall>f \<in> set fs. emitter f \<Longrightarrow> emitter (\<lambda>s. steps fs s)"
  by (rule emitterI) (rule steps_extends)

lemma emitter_print_tabs [intro, simp]: "emitter (\<lambda>s. print_tabs s nesting)"
proof (rule emitterI)
  fix s r s'
  show "session_inv s \<Longrightarrow> print_tabs s nesting = (r, s') \<Longrightarrow> extends s s'"
  proof (induction nesting arbitrary: s)
    case 0
    then show ?case by (simp add: extends_refl)
  next
    case (Suc n)
    obtain r1 s1 where p: "lttng_metadata_printf s TAB = (r1, s1)"
      by (cases "lttng_metadata_printf s TAB")
    from printf_extends [OF Suc.prems(1) p] have e1: "extends s s1" .
    show ?case
    proof (cases r1)
      case None
      with p Suc.prems(2) have "print_tabs s1 n = (r, s')" by simp
      from Suc.IH [OF extends_inv [OF e1] this] e1 show ?thesis
        by (blast intro: extends_trans)
    next
      case (Some e)
      with p Suc.prems(2) e1 show ?thesis by simp
    qed
  qed
qed

subsection \<open>The two escaping routines\<close>

lemma printf_prefix:
  assumes "session_inv s" "lttng_metadata_printf s str = (r, s')"
  shows "session_inv s' \<and> (\<exists>p. content s' = content s @ p \<and> prefix p str \<and> (r = None \<longrightarrow> p = str))"
  using printf_spec [OF assms] by auto

lemma escape_char_step:
  assumes inv: "session_inv s"
    and step: "(if cur = CHR 0x0A then lttng_metadata_printf s (BACKSLASH @ ''n'')
            else if cur = CHR 0x5C \<or> cur = CHR 0x22 then
              (case lttng_metadata_printf s BACKSLASH of
                 (Some e, s1) \<Rightarrow> (Some e, s1)
               | (None, s1) \<Rightarrow> lttng_metadata_printf s1 [cur])
            else lttng_metadata_printf s [cur]) = (r, s')"
  shows "session_inv s' \<and>
         (\<exists>p. content s' = content s @ p \<and> prefix p (ctf_string_escape cur) \<and>
              (r = None \<longrightarrow> p = ctf_string_escape cur))"
proof (cases "cur = CHR 0x5C \<or> cur = CHR 0x22")
  case False
  with step have "lttng_metadata_printf s (ctf_string_escape cur) = (r, s')"
    by (simp add: ctf_string_escape_def split: if_splits)
  from printf_prefix [OF inv this] show ?thesis .
next
  case True
  then have nl: "cur \<noteq> CHR 0x0A" by auto
  obtain r1 s1 where p1: "lttng_metadata_printf s BACKSLASH = (r1, s1)"
    by (cases "lttng_metadata_printf s BACKSLASH")
  from printf_prefix [OF inv p1] obtain q where q: "session_inv s1"
    "content s1 = content s @ q" "prefix q BACKSLASH" "r1 = None \<longrightarrow> q = BACKSLASH"
    by auto
  have esc: "ctf_string_escape cur = BACKSLASH @ [cur]"
    using True nl by (simp add: ctf_string_escape_def)
  show ?thesis
  proof (cases r1)
    case (Some e)
    with step True nl p1 have "r = Some e" "s' = s1" by simp_all
    with q esc show ?thesis by (auto intro: prefix_order.trans)
  next
    case None
    with step True nl p1 have p2: "lttng_metadata_printf s1 [cur] = (r, s')" by simp
    from printf_prefix [OF q(1) p2] obtain q2 where q2: "session_inv s'"
      "content s' = content s1 @ q2" "prefix q2 [cur]" "r = None \<longrightarrow> q2 = [cur]"
      by auto
    from q None have qb: "q = BACKSLASH" by simp
    have c: "content s' = content s @ (BACKSLASH @ q2)" using q(2) q2(2) qb by simp
    have pf: "prefix (BACKSLASH @ q2) (ctf_string_escape cur)"
      using q2(3) unfolding esc by (simp only: same_prefix_prefix)
    have full: "r = None \<longrightarrow> BACKSLASH @ q2 = ctf_string_escape cur" using q2(4) esc by simp
    from q2(1) c pf full show ?thesis by blast
  qed
qed

lemma print_escaped_ctf_string_spec:
  "session_inv s \<Longrightarrow> print_escaped_ctf_string s str = (r, s') \<Longrightarrow>
     session_inv s' \<and>
     (\<exists>p. content s' = content s @ p \<and> prefix p (concat (map ctf_string_escape str)) \<and>
          (r = None \<longrightarrow> p = concat (map ctf_string_escape str)))"
proof (induction str arbitrary: s)
  case Nil
  then show ?case by simp
next
  case (Cons cur rest)
  let ?step = "(if cur = CHR 0x0A then lttng_metadata_printf s (BACKSLASH @ ''n'')
            else if cur = CHR 0x5C \<or> cur = CHR 0x22 then
              (case lttng_metadata_printf s BACKSLASH of
                 (Some e, s1) \<Rightarrow> (Some e, s1)
               | (None, s1) \<Rightarrow> lttng_metadata_printf s1 [cur])
            else lttng_metadata_printf s [cur])"
  obtain r1 s1 where st: "?step = (r1, s1)" by (cases ?step)
  from escape_char_step [OF Cons.prems(1) st] obtain p where p: "session_inv s1"
    "content s1 = content s @ p" "prefix p (ctf_string_escape cur)"
    "r1 = None \<longrightarrow> p = ctf_string_escape cur"
    by auto
  show ?case
  proof (cases r1)
    case (Some e)
    with st Cons.prems(2) have "r = Some e" "s' = s1" by simp_all
    with p show ?thesis by auto
  next
    case None
    with st Cons.prems(2) have "print_escaped_ctf_string s1 rest = (r, s')" by simp
    from Cons.IH [OF p(1) this] obtain q where q: "session_inv s'"
      "content s' = content s1 @ q" "prefix q (concat (map ctf_string_escape rest))"
      "r = None \<longrightarrow> q = concat (map ctf_string_escape rest)"
      by auto
    from p None have "p = ctf_string_escape cur" by simp
    with p q show ?thesis by auto
  qed
qed

lemma print_enum_label_spec:
  "session_inv s \<Longrightarrow> print_enum_label s str = (r, s') \<Longrightarrow>
     session_inv s' \<and>
     (\<exists>p. content s' = content s @ p \<and> prefix p (concat (map enum_label_escape str)) \<and>
          (r = None \<longrightarrow> p = concat (map enum_label_escape str)))"
proof (induction str arbitrary: s)
  case Nil
  then show ?case by simp
next
  case (Cons c rest)
  let ?step = "(if c = CHR 0x22 then lttng_metadata_printf s (BACKSLASH @ DQUOTE)
            else if c = CHR 0x5C then lttng_metadata_printf s (BACKSLASH @ BACKSLASH)
            else lttng_metadata_printf s [c])"
  obtain r1 s1 where st: "?step = (r1, s1)" by (cases ?step)
  from st have "lttng_metadata_printf s (enum_label_escape c) = (r1, s1)"
    by (simp add: enum_label_escape_def DQUOTE_def BACKSLASH_def split: if_splits)
  from printf_prefix [OF Cons.prems(1) this]
  obtain p where p: "session_inv s1"
    "content s1 = content s @ p" "prefix p (enum_label_escape c)"
    "r1 = None \<longrightarrow> p = enum_label_escape c"
    by auto
  show ?case
  proof (cases r1)
    case (Some e)
    with st Cons.prems(2) have "r = Some e" "s' = s1" by simp_all
    with p show ?thesis by auto
  next
    case None
    with st Cons.prems(2) have "print_enum_label s1 rest = (r, s')" by simp
    from Cons.IH [OF p(1) this] obtain q where q: "session_inv s'"
      "content s' = content s1 @ q" "prefix q (concat (map enum_label_escape rest))"
      "r = None \<longrightarrow> q = concat (map enum_label_escape rest)"
      by auto
    from p None have "p = enum_label_escape c" by simp
    with p q show ?thesis by auto
  qed
qed

text \<open>
  C5. From a session that satisfies the buffer invariant, whatever the string: the bytes
  that \<^verbatim>\<open>print_escaped_ctf_string\<close> appends are the start of the string escaped by the
  free-form rule, character by character, and all of it when the call succeeds; the bytes
  that the label loop of \<^verbatim>\<open>ust_metadata_enum_statedump\<close> appends are the start of the
  string escaped by the label rule, and all of it when the loop succeeds. The free-form
  rule turns a newline into backslash and \<open>n\<close>, puts a backslash before a backslash or a
  double quote, and copies any other character; the label rule puts a backslash before a
  double quote or a backslash and copies any other character, the newline too. The
  string \<^verbatim>\<open>He said "hi"\<close>, a newline, \<^verbatim>\<open>Bye\<close> becomes \<^verbatim>\<open>He said \"hi\"\nBye\<close> under the
  free-form rule.
\<close>

theorem escaping_routines:
  assumes "session_inv s"
  shows "(\<forall>r s'. print_escaped_ctf_string s str = (r, s') \<longrightarrow>
            (\<exists>p. content s' = content s @ p \<and> prefix p (concat (map ctf_string_escape str)) \<and>
                 (r = None \<longrightarrow> p = concat (map ctf_string_escape str)))) \<and>
         (\<forall>r s'. print_enum_label s str = (r, s') \<longrightarrow>
            (\<exists>p. content s' = content s @ p \<and> prefix p (concat (map enum_label_escape str)) \<and>
                 (r = None \<longrightarrow> p = concat (map enum_label_escape str)))) \<and>
         (\<forall>c. ctf_string_escape c =
            (if c = CHR 0x0A then [CHR 0x5C, CHR ''n'']
             else if c = CHR 0x5C \<or> c = CHR 0x22 then [CHR 0x5C, c] else [c])) \<and>
         (\<forall>c. enum_label_escape c =
            (if c = CHR 0x22 \<or> c = CHR 0x5C then [CHR 0x5C, c] else [c])) \<and>
         concat (map ctf_string_escape (''He said '' @ DQUOTE @ ''hi'' @ DQUOTE @ NL @ ''Bye'')) =
           ''He said '' @ BACKSLASH @ DQUOTE @ ''hi'' @ BACKSLASH @ DQUOTE @ BACKSLASH @ ''nBye''"
proof -
  have a: "\<forall>r s'. print_escaped_ctf_string s str = (r, s') \<longrightarrow>
            (\<exists>p. content s' = content s @ p \<and> prefix p (concat (map ctf_string_escape str)) \<and>
                 (r = None \<longrightarrow> p = concat (map ctf_string_escape str)))"
    using print_escaped_ctf_string_spec [OF assms] by blast
  have b: "\<forall>r s'. print_enum_label s str = (r, s') \<longrightarrow>
            (\<exists>p. content s' = content s @ p \<and> prefix p (concat (map enum_label_escape str)) \<and>
                 (r = None \<longrightarrow> p = concat (map enum_label_escape str)))"
    using print_enum_label_spec [OF assms] by blast
  have c: "\<forall>c. ctf_string_escape c =
            (if c = CHR 0x0A then [CHR 0x5C, CHR ''n'']
             else if c = CHR 0x5C \<or> c = CHR 0x22 then [CHR 0x5C, c] else [c])"
    by (simp add: ctf_string_escape_def BACKSLASH_def)
  have d: "\<forall>c. enum_label_escape c =
            (if c = CHR 0x22 \<or> c = CHR 0x5C then [CHR 0x5C, c] else [c])"
    by (simp add: enum_label_escape_def BACKSLASH_def)
  have e: "concat (map ctf_string_escape (''He said '' @ DQUOTE @ ''hi'' @ DQUOTE @ NL @ ''Bye'')) =
           ''He said '' @ BACKSLASH @ DQUOTE @ ''hi'' @ BACKSLASH @ DQUOTE @ BACKSLASH @ ''nBye''"
    by (simp add: ctf_string_escape_def BACKSLASH_def DQUOTE_def NL_def)
  from a b c d e show ?thesis by blast
qed

lemmas printf_eval = lttng_metadata_printf_def metadata_file_append_def lttng_write_def
  memcpy_def INT_MAX_def content_def NL_def TAB_def DQUOTE_def BACKSLASH_def

theorem escaping_routines_witness:
  "session_inv fresh_session \<and>
   fst (print_escaped_ctf_string fresh_session
          (''He said '' @ DQUOTE @ ''hi'' @ DQUOTE @ NL @ ''Bye'')) = None \<and>
   content (snd (print_escaped_ctf_string fresh_session
          (''He said '' @ DQUOTE @ ''hi'' @ DQUOTE @ NL @ ''Bye''))) =
     ''He said '' @ BACKSLASH @ DQUOTE @ ''hi'' @ BACKSLASH @ DQUOTE @ BACKSLASH @ ''nBye'' \<and>
   fst (print_enum_label fresh_session (''a'' @ DQUOTE @ NL @ ''b'')) = None \<and>
   content (snd (print_enum_label fresh_session (''a'' @ DQUOTE @ NL @ ''b''))) =
     ''a'' @ BACKSLASH @ DQUOTE @ NL @ ''b''"
proof -
  let ?str = "''He said '' @ DQUOTE @ ''hi'' @ DQUOTE @ NL @ ''Bye''"
  let ?lab = "''a'' @ DQUOTE @ NL @ ''b''"
  have inv: "session_inv fresh_session"
    by (simp add: session_inv_def fresh_session_def)
  have ok1: "fst (print_escaped_ctf_string fresh_session ?str) = None"
    by (simp add: printf_eval reserve_eval)
  have ok2: "fst (print_enum_label fresh_session ?lab) = None"
    by (simp add: printf_eval reserve_eval)
  have c0: "content fresh_session = []" by (simp add: content_def fresh_session_def)
  obtain ra sa where runa: "print_escaped_ctf_string fresh_session ?str = (ra, sa)"
    by (cases "print_escaped_ctf_string fresh_session ?str")
  obtain rb sb where runb: "print_enum_label fresh_session ?lab = (rb, sb)"
    by (cases "print_enum_label fresh_session ?lab")
  from ok1 runa have ra: "ra = None" by simp
  from ok2 runb have rb: "rb = None" by simp
  note inst = escaping_routines [OF inv, of ?str]
  from inst runa ra
  have "content sa = content fresh_session @ concat (map ctf_string_escape ?str)"
    by blast
  moreover from inst
  have "concat (map ctf_string_escape ?str) =
     ''He said '' @ BACKSLASH @ DQUOTE @ ''hi'' @ BACKSLASH @ DQUOTE @ BACKSLASH @ ''nBye''"
    by blast
  ultimately have "content sa =
     ''He said '' @ BACKSLASH @ DQUOTE @ ''hi'' @ BACKSLASH @ DQUOTE @ BACKSLASH @ ''nBye''"
    using c0 by simp
  with runa have r1: "content (snd (print_escaped_ctf_string fresh_session ?str)) =
     ''He said '' @ BACKSLASH @ DQUOTE @ ''hi'' @ BACKSLASH @ DQUOTE @ BACKSLASH @ ''nBye''"
    by simp
  from escaping_routines [OF inv, of ?lab] runb rb
  have "content sb = content fresh_session @ concat (map enum_label_escape ?lab)"
    by blast
  then have "content sb = ''a'' @ BACKSLASH @ DQUOTE @ NL @ ''b''"
    using c0 by (simp add: enum_label_escape_def BACKSLASH_def DQUOTE_def NL_def)
  with runb have r2: "content (snd (print_enum_label fresh_session ?lab)) =
     ''a'' @ BACKSLASH @ DQUOTE @ NL @ ''b''"
    by simp
  from inv ok1 r1 ok2 r2 show ?thesis by blast
qed

subsection \<open>Emission in a quiet environment\<close>

text \<open>
  In a calm session with room below \<open>2 ^ 29\<close> bytes, \<^verbatim>\<open>lttng_metadata_printf\<close> succeeds,
  appends the text, and leaves a calm session.
\<close>

lemma printf_calm:
  assumes calm: "calm s" and room: "metadata_len s + length str < 2 ^ 29"
  shows "lttng_metadata_printf s str = (None, appended s str) \<and> calm (appended s str) \<and>
         metadata_len (appended s str) = metadata_len s + length str \<and>
         content (appended s str) = content s @ str \<and>
         enums (appended s str) = enums s \<and> byte_order (appended s str) = byte_order s \<and>
         write_script (appended s str) = write_script s \<and>
         metadata_file (appended s str) = metadata_file s"
proof -
  from calm have inv: "session_inv s" and heap: "heap_script s = []" and fd: "metadata_fd s < 0"
    and tight: "metadata_alloc_len s \<le> 2 * metadata_len s"
    by (simp_all add: calm_def)
  from inv have i: "length (metadata s) = metadata_alloc_len s"
    "metadata_len s \<le> metadata_alloc_len s" "metadata_alloc_len s \<le> 2 ^ 31"
    "metadata_len s < 2 ^ 31"
    by (simp_all add: session_inv_def)
  let ?T = "metadata_len s + length str"
  have h: "heap_alloc s = (True, s)" using heap by (simp add: heap_alloc_def)
  have short: "length str \<le> INT_MAX" using room by (simp add: INT_MAX_def)
  have len: "length str + 2 ^ 31 \<le> 2 ^ 64" using room by simp
  have lim: "?T \<le> 2 ^ 31 - 1" "2 * metadata_alloc_len s \<le> 2 ^ 31 - 1"
    using room tight by simp_all
  obtain q s2 where q: "metadata_reserve s (length str) = (q, s2)"
    by (cases "metadata_reserve s (length str)")
  have all: "q = Inr (metadata_len s) \<and> metadata_len s2 = ?T \<and>
      metadata_alloc_len s2 \<le> 2 * ?T \<and> heap_script s2 = [] \<and> metadata_fd s2 = metadata_fd s \<and>
      write_script s2 = write_script s \<and> metadata_file s2 = metadata_file s"
  proof (cases "?T \<le> metadata_alloc_len s")
    case True
    from reserve_fits [OF i(4) len lim True] q
    have "q = Inr (metadata_len s)" "s2 = s\<lparr>metadata_len := ?T\<rparr>" by simp_all
    with tight heap show ?thesis by simp
  next
    case False
    then have g: "metadata_alloc_len s < ?T" by simp
    from reserve_grows [OF i(1) i(4) len lim g h] q
    obtain j where j: "?T \<le> 2 ^ j" "\<forall>k. ?T \<le> 2 ^ k \<longrightarrow> j \<le> k"
      and qq: "q = Inr (metadata_len s)"
      and s2': "s2 = s\<lparr>metadata := metadata s @
                    replicate (max (2 ^ j) (2 * metadata_alloc_len s) - metadata_alloc_len s)
                      (CHR 0x00),
                  metadata_alloc_len := max (2 ^ j) (2 * metadata_alloc_len s),
                  metadata_len := ?T\<rparr>"
      by auto
    have pj: "(2::nat) ^ j \<le> 2 * ?T"
    proof (cases j)
      case 0
      with g show ?thesis by simp
    next
      case (Suc j')
      have "\<not> ?T \<le> 2 ^ j'" using j(2) Suc by auto
      then show ?thesis using Suc by simp
    qed
    with g have "max (2 ^ j) (2 * metadata_alloc_len s) \<le> 2 * ?T" by simp
    with qq s2' heap show ?thesis by simp
  qed
  then have q_ok: "q = Inr (metadata_len s)" and s2: "metadata_len s2 = ?T"
    "metadata_alloc_len s2 \<le> 2 * ?T" "heap_script s2 = []" "metadata_fd s2 = metadata_fd s"
    "write_script s2 = write_script s" "metadata_file s2 = metadata_file s"
    by simp_all
  let ?s3 = "s2\<lparr>metadata := memcpy (metadata s2) (metadata_len s) str\<rparr>"
  have res: "lttng_metadata_printf s str = (None, ?s3)"
    using h short q q_ok s2(4) fd
    by (simp add: lttng_metadata_printf_def metadata_file_append_def)
  then have app: "appended s str = ?s3" by (simp add: appended_def)
  from printf_spec [OF inv res]
  have sp: "session_inv ?s3" "enums ?s3 = enums s" "byte_order ?s3 = byte_order s"
    "metadata_fd ?s3 = metadata_fd s" "content ?s3 = content s @ str"
    by simp_all
  have "calm ?s3" using sp(1,4) fd s2 by (simp add: calm_def)
  with res sp s2 show ?thesis unfolding app by simp
qed

lemma calm_fresh: "calm fresh_session"
  by (simp add: calm_def session_inv_def fresh_session_def)

lemma calm_inv: "calm s \<Longrightarrow> session_inv s"
  by (simp add: calm_def)

lemma printf_fits:
  "fits s (length str) \<Longrightarrow> lttng_metadata_printf s str = (None, appended s str)"
  using printf_calm by (simp add: fits_def)

lemma fits_appended:
  "fits s (length str + n) \<Longrightarrow> fits (appended s str) n = True"
  using printf_calm [of s str] by (simp add: fits_def)

lemma content_appended:
  "fits s (length str) \<Longrightarrow> content (appended s str) = content s @ str"
  using printf_calm by (simp add: fits_def)

lemma enums_appended:
  "fits s (length str) \<Longrightarrow> enums (appended s str) = enums s"
  using printf_calm by (simp add: fits_def)

lemma byte_order_appended:
  "fits s (length str) \<Longrightarrow> byte_order (appended s str) = byte_order s"
  using printf_calm by (simp add: fits_def)

lemma fits_fresh: "fits fresh_session n = (n < 2 ^ 29)"
  using calm_fresh by (simp add: fits_def fresh_session_def)

lemma print_tabs_unfold:
  "print_tabs s n =
     (if n = 0 then (None, s)
      else case lttng_metadata_printf s TAB of
             (Some e, s1) \<Rightarrow> (Some e, s1)
           | (None, s1) \<Rightarrow> print_tabs s1 (n - 1))"
  by (cases n) (auto split: prod.splits option.splits)

text \<open>The rules that run the emission on a calm session, one call after the other.\<close>

lemmas calm_simps = printf_fits fits_appended content_appended enums_appended
  byte_order_appended print_tabs_unfold NL_def TAB_def DQUOTE_def BACKSLASH_def

subsection \<open>The text of an enumeration\<close>

lemma appendsI:
  "(\<And>s s'. session_inv s \<Longrightarrow> f s = (None, s') \<Longrightarrow> session_inv s' \<and> content s' = content s @ t)
     \<Longrightarrow> appends f t"
  by (simp add: appends_def)



lemma appends_skip: "appends (\<lambda>s. (None, s)) []"
  by (rule appendsI) simp





lemma appends_eta: "appends f t \<Longrightarrow> appends (\<lambda>s. f s) t"
  by simp










section \<open>Every dump only appends\<close>

lemma tabs_extends: "session_inv s \<Longrightarrow> print_tabs s n = (r, s') \<Longrightarrow> extends s s'"
  using emitter_print_tabs by (rule emitterD)

lemma emitter_print_enum_label: "emitter (\<lambda>s. print_enum_label s str)"
proof (rule emitterI)
  fix s r s'
  show "session_inv s \<Longrightarrow> print_enum_label s str = (r, s') \<Longrightarrow> extends s s'"
  proof (induction str arbitrary: s)
    case Nil
    then show ?case by (simp add: extends_refl)
  next
    case (Cons c rest)
    let ?step = "(if c = CHR 0x22 then lttng_metadata_printf s (BACKSLASH @ DQUOTE)
            else if c = CHR 0x5C then lttng_metadata_printf s (BACKSLASH @ BACKSLASH)
            else lttng_metadata_printf s [c])"
    obtain r1 s1 where st: "?step = (r1, s1)" by (cases ?step)
    then have e1: "extends s s1"
      using printf_extends [OF Cons.prems(1)] by (auto split: if_splits)
    show ?case
    proof (cases r1)
      case None
      with st Cons.prems(2) have "print_enum_label s1 rest = (r, s')" by simp
      from Cons.IH [OF extends_inv [OF e1] this] e1 show ?thesis
        by (blast intro: extends_trans)
    next
      case (Some e)
      with st Cons.prems(2) e1 show ?thesis by simp
    qed
  qed
qed

lemma emitter_print_escaped_ctf_string: "emitter (\<lambda>s. print_escaped_ctf_string s str)"
proof (rule emitterI)
  fix s r s'
  show "session_inv s \<Longrightarrow> print_escaped_ctf_string s str = (r, s') \<Longrightarrow> extends s s'"
  proof (induction str arbitrary: s)
    case Nil
    then show ?case by (simp add: extends_refl)
  next
    case (Cons cur rest)
    let ?step = "(if cur = CHR 0x0A then lttng_metadata_printf s (BACKSLASH @ ''n'')
            else if cur = CHR 0x5C \<or> cur = CHR 0x22 then
              (case lttng_metadata_printf s BACKSLASH of
                 (Some e, s1) \<Rightarrow> (Some e, s1)
               | (None, s1) \<Rightarrow> lttng_metadata_printf s1 [cur])
            else lttng_metadata_printf s [cur])"
    obtain r1 s1 where st: "?step = (r1, s1)" by (cases ?step)
    have two: "\<And>r s'. (case lttng_metadata_printf s BACKSLASH of
                 (Some e, s1) \<Rightarrow> (Some e, s1)
               | (None, s1) \<Rightarrow> lttng_metadata_printf s1 [cur]) = (r, s') \<Longrightarrow> extends s s'"
    proof -
      fix r s'
      assume a: "(case lttng_metadata_printf s BACKSLASH of
                 (Some e, s1) \<Rightarrow> (Some e, s1)
               | (None, s1) \<Rightarrow> lttng_metadata_printf s1 [cur]) = (r, s')"
      obtain ra sa where p: "lttng_metadata_printf s BACKSLASH = (ra, sa)"
        by (cases "lttng_metadata_printf s BACKSLASH")
      from printf_extends [OF Cons.prems(1) p] have ea: "extends s sa" .
      show "extends s s'"
      proof (cases ra)
        case None
        with a p have "lttng_metadata_printf sa [cur] = (r, s')" by simp
        from printf_extends [OF extends_inv [OF ea] this] ea show ?thesis
          by (blast intro: extends_trans)
      next
        case (Some e)
        with a p ea show ?thesis by simp
      qed
    qed
    from st have e1: "extends s s1"
      using printf_extends [OF Cons.prems(1)] two by (auto split: if_splits)
    show ?case
    proof (cases r1)
      case None
      with st Cons.prems(2) have "print_escaped_ctf_string s1 rest = (r, s')" by simp
      from Cons.IH [OF extends_inv [OF e1] this] e1 show ?thesis
        by (blast intro: extends_trans)
    next
      case (Some e)
      with st Cons.prems(2) e1 show ?thesis by simp
    qed
  qed
qed

lemma emitter_print_enum_entry: "emitter (\<lambda>s. print_enum_entry s entry nesting)"
proof -
  let ?last = "\<lambda>s. if signedness (start entry) = signedness (end_v entry) \<and>
                        val (start entry) = val (end_v entry)
                     then lttng_metadata_printf s ('','' @ NL)
                     else lttng_metadata_printf s
                            ('' ... '' @ fmt_enum_value (end_v entry) @ '','' @ NL)"
  let ?range = "steps
                [\<lambda>s. lttng_metadata_printf s '' = '',
                 \<lambda>s. lttng_metadata_printf s (fmt_enum_value (start entry)),
                 ?last]"
  let ?tail = "\<lambda>s. if is_auto entry then lttng_metadata_printf s ('','' @ NL) else ?range s"
  have last: "emitter ?last" by (rule emitter_if) (rule emitter_printf)+
  have range: "emitter ?range" by (rule emitter_steps) (simp add: last)
  have tail: "emitter ?tail" by (rule emitter_if) (rule emitter_printf range)+
  show ?thesis
    unfolding print_enum_entry_def
    by (rule emitter_steps) (simp add: tail emitter_print_enum_label)
qed

lemma emitter_print_enum_entries: "emitter (\<lambda>s. print_enum_entries s es nesting)"
proof (rule emitterI)
  fix s r s'
  show "session_inv s \<Longrightarrow> print_enum_entries s es nesting = (r, s') \<Longrightarrow> extends s s'"
  proof (induction es arbitrary: s)
    case Nil
    then show ?case by (simp add: extends_refl)
  next
    case (Cons e es)
    obtain r1 s1 where st: "print_enum_entry s e nesting = (r1, s1)"
      by (cases "print_enum_entry s e nesting")
    from emitterD [OF emitter_print_enum_entry Cons.prems(1) st] have e1: "extends s s1" .
    show ?case
    proof (cases r1)
      case None
      with st Cons.prems(2) have "print_enum_entries s1 es nesting = (r, s')" by simp
      from Cons.IH [OF extends_inv [OF e1] this] e1 show ?thesis
        by (blast intro: extends_trans)
    next
      case (Some e)
      with st Cons.prems(2) e1 show ?thesis by simp
    qed
  qed
qed

lemma enum_statedump_extends:
  assumes "session_inv s"
    and "ust_metadata_enum_statedump s nm eid t fname it nesting = (r, s', it')"
  shows "extends s s'"
proof (cases "ust_registry_lookup_enum_by_id s nm eid")
  case None
  with assms show ?thesis by (simp add: ust_metadata_enum_statedump_def extends_refl)
next
  case (Some reg_enum)
  have "emitter (steps
                   [\<lambda>s. print_tabs s nesting,
                    \<lambda>s. lttng_metadata_printf s
                          (''enum : integer { size = '' @ fmt_u (int_size t) @
                           ''; align = '' @ fmt_u (int_alignment t) @
                           ''; signed = '' @ fmt_u (int_signedness t) @
                           ''; encoding = '' @ encoding_name (int_encoding t) @
                           ''; base = '' @ fmt_u (int_base t) @ ''; } {'' @ NL),
                    \<lambda>s. print_enum_entries s (entries reg_enum) (nesting + 1),
                    \<lambda>s. print_tabs s nesting,
                    \<lambda>s. lttng_metadata_printf s
                          (''} _'' @ sanitize_ctf_identifier fname @ '';'' @ NL)])"
    by (intro emitter_steps ballI) (auto intro: emitter_print_enum_entries)
  from emitterD [OF this assms(1)] assms(2) Some show ?thesis
    by (auto simp: ust_metadata_enum_statedump_def simp del: steps.simps split: prod.splits)
qed

lemma emitter_printf_fun: "emitter (\<lambda>s. lttng_metadata_printf s (text s))"
  by (rule emitterI) (rule printf_extends)

lemma tabbed_line_extends:
  assumes "session_inv s"
    and "(case print_tabs s nesting of
            (Some e, s1) \<Rightarrow> (Some e, s1, it)
          | (None, s1) \<Rightarrow> (let (r, s2) = lttng_metadata_printf s1 (text s1) in (r, s2, it2)))
         = (r, s', it')"
  shows "extends s s'"
proof -
  obtain r1 s1 where t: "print_tabs s nesting = (r1, s1)" by (cases "print_tabs s nesting")
  from tabs_extends [OF assms(1) t] have e1: "extends s s1" .
  show ?thesis
  proof (cases r1)
    case None
    obtain r2 s2 where p: "lttng_metadata_printf s1 (text s1) = (r2, s2)"
      by (cases "lttng_metadata_printf s1 (text s1)")
    from printf_extends [OF extends_inv [OF e1] p] have "extends s1 s2" .
    with e1 have "extends s s2" by (rule extends_trans)
    with assms(2) t None p show ?thesis by simp
  next
    case (Some e)
    with assms(2) t e1 show ?thesis by simp
  qed
qed

lemma tabbed_line_extends_case:
  assumes "session_inv s"
    and "(case print_tabs s nesting of
            (Some e, s1) \<Rightarrow> (Some e, s1, it)
          | (None, s1) \<Rightarrow>
              (case lttng_metadata_printf s1 (text s1) of (r, s2) \<Rightarrow> (r, s2, it2)))
         = (r, s', it')"
  shows "extends s s'"
proof -
  obtain r1 s1 where t: "print_tabs s nesting = (r1, s1)" by (cases "print_tabs s nesting")
  from tabs_extends [OF assms(1) t] have e1: "extends s s1" .
  show ?thesis
  proof (cases r1)
    case None
    obtain r2 s2 where p: "lttng_metadata_printf s1 (text s1) = (r2, s2)"
      by (cases "lttng_metadata_printf s1 (text s1)")
    from printf_extends [OF extends_inv [OF e1] p] have "extends s1 s2" .
    with e1 have "extends s s2" by (rule extends_trans)
    with assms(2) t None p show ?thesis by simp
  next
    case (Some e)
    with assms(2) t e1 show ?thesis by simp
  qed
qed

lemma dump_integer_extends:
  "session_inv s \<Longrightarrow> dump_integer s field t it nesting = (r, s', it') \<Longrightarrow> extends s s'"
  unfolding dump_integer_def by (rule tabbed_line_extends)

lemma dump_float_extends:
  "session_inv s \<Longrightarrow> dump_float s field t it nesting = (r, s', it') \<Longrightarrow> extends s s'"
  unfolding dump_float_def by (rule tabbed_line_extends)

lemma dump_string_extends:
  "session_inv s \<Longrightarrow> dump_string s field enc it nesting = (r, s', it') \<Longrightarrow> extends s s'"
  unfolding dump_string_def by (rule tabbed_line_extends)

lemma dump_struct_extends:
  "session_inv s \<Longrightarrow> dump_struct s field n it nesting = (r, s', it') \<Longrightarrow> extends s s'"
  unfolding dump_struct_def
  by (cases "n \<noteq> 0") (auto simp: extends_refl elim: tabbed_line_extends)

lemma dump_struct_nestable_extends:
  assumes "session_inv s" "dump_struct_nestable s field n al it nesting = (r, s', it')"
  shows "extends s s'"
proof (cases "n \<noteq> 0")
  case True
  with assms show ?thesis by (simp add: dump_struct_nestable_def extends_refl)
next
  case False
  obtain r1 s1 where t: "print_tabs s nesting = (r1, s1)" by (cases "print_tabs s nesting")
  from tabs_extends [OF assms(1) t] have e1: "extends s s1" .
  show ?thesis
  proof (cases r1)
    case (Some e)
    with assms(2) False t e1 show ?thesis by (simp add: dump_struct_nestable_def)
  next
    case None
    let ?text = "if al \<noteq> 0
      then ''struct {} align('' @ fmt_u ((al * CHAR_BIT) mod 2 ^ 32) @ '') _'' @
           field_name field @ '';'' @ NL
      else ''struct {} _'' @ field_name field @ '';'' @ NL"
    obtain r2 s2 where p: "lttng_metadata_printf s1 ?text = (r2, s2)"
      by (cases "lttng_metadata_printf s1 ?text")
    from printf_extends [OF extends_inv [OF e1] p] e1 have "extends s s2"
      by (blast intro: extends_trans)
    moreover from assms(2) False t None p have "s' = s2"
      by (auto simp: dump_struct_nestable_def split: if_splits option.splits prod.splits)
    ultimately show ?thesis by simp
  qed
qed

lemma dump_array_extends:
  assumes "session_inv s" "dump_array s field bt len it nesting = (r, s', it')"
  shows "extends s s'"
proof -
  obtain r1 s1 where t: "print_tabs s nesting = (r1, s1)" by (cases "print_tabs s nesting")
  from tabs_extends [OF assms(1) t] have e1: "extends s s1" .
  show ?thesis
  proof (cases r1)
    case (Some e)
    with assms(2) t e1 show ?thesis by (simp add: dump_array_def)
  next
    case None
    show ?thesis
    proof (cases bt)
      case (basic_integer ty)
      let ?text = "integer_decl s1 ty @ '' _'' @ field_name field @ ''['' @ fmt_u len @ ''];'' @ NL"
      obtain r2 s2 where p: "lttng_metadata_printf s1 ?text = (r2, s2)"
        by (cases "lttng_metadata_printf s1 ?text")
      from printf_extends [OF extends_inv [OF e1] p] e1 have "extends s s2"
        by (blast intro: extends_trans)
      with assms(2) t None basic_integer p show ?thesis by (simp add: dump_array_def)
    qed (use assms(2) t None e1 in \<open>simp_all add: dump_array_def\<close>)
  qed
qed

lemma dump_sequence_extends:
  assumes "session_inv s" "dump_sequence s field lt bt it nesting = (r, s', it')"
  shows "extends s s'"
proof -
  obtain r1 s1 where t: "print_tabs s nesting = (r1, s1)" by (cases "print_tabs s nesting")
  from tabs_extends [OF assms(1) t] have e1: "extends s s1" .
  show ?thesis
  proof (cases r1)
    case (Some e)
    with assms(2) t e1 show ?thesis by (simp add: dump_sequence_def)
  next
    case None
    show ?thesis
    proof (cases bt)
      case (basic_integer ty)
      let ?st = "steps
                       [\<lambda>s. lttng_metadata_printf s
                              (integer_decl s lt @ '' __'' @ field_name field @
                               ''_length;'' @ NL),
                        \<lambda>s. print_tabs s nesting]"
      obtain r2 s2 where st: "?st s1 = (r2, s2)" by (cases "?st s1")
      have "emitter ?st"
        by (intro emitter_steps ballI) (auto intro!: emitter_printf_fun)
      from emitterD [OF this extends_inv [OF e1] st] e1 have e2: "extends s s2"
        by (blast intro: extends_trans)
      show ?thesis
      proof (cases r2)
        case (Some e)
        with assms(2) t None basic_integer st e2 show ?thesis
          by (simp add: dump_sequence_def del: steps.simps)
      next
        case n2: None
        let ?text = "integer_decl s2 ty @ '' _'' @ field_name field @
                                      ''[ __'' @ field_name field @ ''_length ];'' @ NL"
        obtain r3 s3 where p: "lttng_metadata_printf s2 ?text = (r3, s3)"
          by (cases "lttng_metadata_printf s2 ?text")
        from printf_extends [OF extends_inv [OF e2] p] e2 have "extends s s3"
          by (blast intro: extends_trans)
        with assms(2) t None basic_integer st n2 p show ?thesis
          by (simp add: dump_sequence_def del: steps.simps)
      qed
    qed (use assms(2) t None e1 in \<open>simp_all add: dump_sequence_def\<close>)
  qed
qed

lemma padded_line_extends:
  assumes "session_inv s"
    and "(case (if 0 < al
                then steps [\<lambda>s. print_tabs s nesting,
                            \<lambda>s. lttng_metadata_printf s (padding_decl al nm)] s
                else (None, s)) of
            (Some e, s1) \<Rightarrow> (Some e, s1, it1)
          | (None, s1) \<Rightarrow>
              (case print_tabs s1 nesting of
                 (Some e, s2) \<Rightarrow> (Some e, s2, it1)
               | (None, s2) \<Rightarrow>
                   (case lttng_metadata_printf s2 (text s2) of (r, s3) \<Rightarrow> (r, s3, it2))))
         = (r, s', it')"
  shows "extends s s'"
proof -
  let ?pad = "\<lambda>s. if 0 < al
                then steps [\<lambda>s. print_tabs s nesting,
                            \<lambda>s. lttng_metadata_printf s (padding_decl al nm)] s
                else (None, s)"
  have "emitter (steps [\<lambda>s. print_tabs s nesting,
                            \<lambda>s. lttng_metadata_printf s (padding_decl al nm)])"
    by (intro emitter_steps ballI) auto
  then have em: "emitter ?pad" by (rule emitter_if) (rule emitter_skip)
  obtain r1 s1 where p: "?pad s = (r1, s1)" by (cases "?pad s")
  from emitterD [OF em assms(1) p] have e1: "extends s s1" .
  show ?thesis
  proof (cases r1)
    case (Some e)
    with assms(2) p e1 show ?thesis by (simp del: steps.simps)
  next
    case None
    with assms(2) p
    have "(case print_tabs s1 nesting of
                 (Some e, s2) \<Rightarrow> (Some e, s2, it1)
               | (None, s2) \<Rightarrow>
                   (case lttng_metadata_printf s2 (text s2) of (r, s3) \<Rightarrow> (r, s3, it2)))
         = (r, s', it')"
      by (simp del: steps.simps)
    from tabbed_line_extends_case [OF extends_inv [OF e1] this] e1 show ?thesis
      by (blast intro: extends_trans)
  qed
qed

lemma dump_array_nestable_extends:
  assumes "session_inv s" "dump_array_nestable s flds field len al it nesting = (r, s', it')"
  shows "extends s s'"
proof (cases "it + 1 \<ge> length flds")
  case True
  with assms show ?thesis by (simp add: dump_array_nestable_def extends_refl)
next
  case False
  show ?thesis
  proof (cases "field_type (flds ! (it + 1))")
    case (lttng_ust_ctl_atype_integer ty)
    with assms(2) False show ?thesis
      unfolding dump_array_nestable_def Let_def
      by (simp del: steps.simps) (erule padded_line_extends [OF assms(1)])
  qed (use assms False in \<open>simp_all add: dump_array_nestable_def extends_refl\<close>)
qed

lemma dump_sequence_nestable_extends:
  assumes "session_inv s" "dump_sequence_nestable s flds field ln al it nesting = (r, s', it')"
  shows "extends s s'"
proof (cases "it + 1 \<ge> length flds")
  case True
  with assms show ?thesis by (simp add: dump_sequence_nestable_def extends_refl)
next
  case False
  show ?thesis
  proof (cases "field_type (flds ! (it + 1))")
    case (lttng_ust_ctl_atype_integer ty)
    with assms(2) False show ?thesis
      unfolding dump_sequence_nestable_def Let_def
      by (simp del: steps.simps) (erule padded_line_extends [OF assms(1)])
  qed (use assms False in \<open>simp_all add: dump_sequence_nestable_def extends_refl\<close>)
qed

lemma dump_enum_nestable_extends:
  assumes "session_inv s" "dump_enum_nestable s flds field nm eid it nesting = (r, s', it')"
  shows "extends s s'"
proof (cases "it + 1 \<ge> length flds")
  case True
  with assms show ?thesis by (simp add: dump_enum_nestable_def extends_refl)
next
  case False
  show ?thesis
  proof (cases "field_type (flds ! (it + 1))")
    case (lttng_ust_ctl_atype_integer ty)
    with assms False show ?thesis
      by (auto simp: dump_enum_nestable_def elim: enum_statedump_extends)
  qed (use assms False in \<open>simp_all add: dump_enum_nestable_def extends_refl\<close>)
qed

lemmas leaf_extends = dump_integer_extends dump_float_extends dump_string_extends
  dump_struct_extends dump_struct_nestable_extends dump_array_extends dump_sequence_extends
  dump_array_nestable_extends dump_sequence_nestable_extends dump_enum_nestable_extends
  enum_statedump_extends

lemma emitter_variant_header: "emitter (variant_header tag al vname nesting)"
  unfolding variant_header_def
  by (rule emitter_steps) auto

lemma emitter_variant_footer: "emitter (variant_footer vname nesting)"
  unfolding variant_footer_def
  by (rule emitter_steps) auto

lemma walker_extends:
  "session_inv s \<Longrightarrow> lttng_field_statedump s flds it nesting = (r, s', it') \<Longrightarrow> extends s s'"
  "session_inv s \<Longrightarrow> lttng_variant_statedump s nr tag al flds it nesting = (r, s', it') \<Longrightarrow>
     extends s s'"
  "session_inv s \<Longrightarrow> variant_choices s i nr flds it nesting = (r, s', it') \<Longrightarrow> extends s s'"
proof (induct s flds it nesting and s nr tag al flds it nesting and s i nr flds it nesting
    arbitrary: r s' it' and r s' it' and r s' it'
    rule: lttng_field_statedump_lttng_variant_statedump_variant_choices.induct)
  case (1 s flds iter_field nesting)
  show ?case
  proof (cases "length flds \<le> iter_field")
    case True
    with "1.prems" show ?thesis by (auto simp: field_statedump_overflow extends_refl)
  next
    case False
    then have lt: "iter_field < length flds" by simp
    note eq = "1.prems"(2) [unfolded field_statedump_unfold [OF lt]]
    note inv = "1.prems"(1)
    show ?thesis
    proof (cases "field_type (flds ! iter_field)")
      case (lttng_ust_ctl_atype_variant nr tg)
      with eq "1.hyps"(1) [OF False refl _ inv] show ?thesis by simp
    next
      case (lttng_ust_ctl_atype_variant_nestable nr tg al)
      with eq "1.hyps"(2) [OF False refl _ inv] show ?thesis by simp
    next
      case (lttng_ust_ctl_atype_other tag)
      with eq inv show ?thesis by (simp add: extends_refl)
    qed (use eq inv in \<open>auto elim: leaf_extends [OF inv]\<close>)
  qed
next
  case (2 s nr_choices tag_name alignment flds iter_field nesting)
  let ?hdr = "variant_header tag_name alignment (field_name (flds ! iter_field)) nesting s"
  obtain r1 s1 where h: "?hdr = (r1, s1)" by (cases ?hdr)
  from emitterD [OF emitter_variant_header "2.prems"(1) h] have e1: "extends s s1" .
  note eq = "2.prems"(2) [unfolded variant_statedump_unfold]
  show ?case
  proof (cases r1)
    case (Some e)
    with h eq e1 show ?thesis by simp
  next
    case None
    obtain r2 s2 it2 where c: "variant_choices s1 0 nr_choices flds (iter_field + 1) nesting = (r2, s2, it2)"
      by (cases "variant_choices s1 0 nr_choices flds (iter_field + 1) nesting")
    from "2.hyps" [OF refl refl h [symmetric] None extends_inv [OF e1] c] e1
    have e2: "extends s s2" by (blast intro: extends_trans)
    show ?thesis
    proof (cases r2)
      case (Some e)
      with h None c eq e2 show ?thesis by simp
    next
      case n2: None
      obtain r3 s3 where f: "variant_footer (field_name (flds ! iter_field)) nesting s2 = (r3, s3)"
        by (cases "variant_footer (field_name (flds ! iter_field)) nesting s2")
      from emitterD [OF emitter_variant_footer extends_inv [OF e2] f] e2
      have "extends s s3" by (blast intro: extends_trans)
      with h None c n2 f eq show ?thesis by simp
    qed
  qed
next
  case (3 s i nr_choices flds iter_field nesting)
  show ?case
  proof (cases "i < nr_choices \<and> \<not> length flds \<le> iter_field")
    case False
    with "3.prems" show ?thesis
      by (subst (asm) variant_choices.simps) (auto simp: extends_refl split: if_splits)
  next
    case True
    obtain r1 s1 it1 where f: "lttng_field_statedump s flds iter_field (nesting + 1) = (r1, s1, it1)"
      by (cases "lttng_field_statedump s flds iter_field (nesting + 1)")
    from "3.hyps"(1) [OF _ _ "3.prems"(1) f] True have e1: "extends s s1" by simp
    show ?thesis
    proof (cases r1)
      case None
      from True f None "3.prems"(2)
      have c: "variant_choices s1 (i + 1) nr_choices flds it1 nesting = (r, s', it')"
        by (subst (asm) variant_choices.simps) simp
      from True have t1: "i < nr_choices" and t2: "\<not> length flds \<le> iter_field" by simp_all
      from f None have "(None, s1, it1) = lttng_field_statedump s flds iter_field (nesting + 1)"
        by simp
      from "3.hyps"(2) [OF t1 t2 this refl refl extends_inv [OF e1] c] e1
      show ?thesis by (blast intro: extends_trans)
    next
      case (Some e)
      from True f Some "3.prems"(2) have "s' = s1"
        by (subst (asm) variant_choices.simps) simp
      with e1 show ?thesis by simp
    qed
  qed
qed

lemma fields_loop_extends:
  "session_inv s \<Longrightarrow> statedump_fields_loop s flds i = (r, s') \<Longrightarrow> extends s s'"
proof (induction s flds i rule: statedump_fields_loop.induct)
  case (1 s flds i)
  show ?case
  proof (cases "length flds \<le> i")
    case True
    with "1.prems" show ?thesis
      by (subst (asm) statedump_fields_loop.simps) (simp add: extends_refl)
  next
    case False
    obtain r1 s1 i1 where f: "lttng_field_statedump s flds i 2 = (r1, s1, i1)"
      by (cases "lttng_field_statedump s flds i 2")
    from walker_extends(1) [OF "1.prems"(1) f] have e1: "extends s s1" .
    show ?thesis
    proof (cases r1)
      case None
      with False f "1.prems"(2) have "statedump_fields_loop s1 flds i1 = (r, s')"
        by (subst (asm) statedump_fields_loop.simps) simp
      from "1.IH" [OF False f [symmetric] None refl extends_inv [OF e1] this] e1
      show ?thesis by (blast intro: extends_trans)
    next
      case (Some e)
      with False f "1.prems"(2) have "s' = s1"
        by (subst (asm) statedump_fields_loop.simps) simp
      with e1 show ?thesis by simp
    qed
  qed
qed

lemma emitter_context_statedump: "emitter (\<lambda>s. lttng_context_metadata_statedump s ctx)"
  by (rule emitterI)
     (auto simp: lttng_context_metadata_statedump_def extends_refl
       split: option.splits elim: fields_loop_extends)

lemma emitter_fields_statedump: "emitter (\<lambda>s. lttng_fields_metadata_statedump s event)"
  by (rule emitterI) (auto simp: lttng_fields_metadata_statedump_def elim: fields_loop_extends)

section \<open>The event dump\<close>

lemma emitter_event_block: "emitter (event_block chan event)"
proof -
  have uri: "emitter (\<lambda>s. case model_emf_uri event of
               None \<Rightarrow> (None, s)
             | Some uri \<Rightarrow> lttng_metadata_printf s (event_uri_text uri))"
    by (cases "model_emf_uri event") simp_all
  show ?thesis
    unfolding event_block_def
    by (rule emitter_steps) (simp add: uri emitter_fields_statedump)
qed

lemma steps_success_Cons:
  "steps (f # fs) s = (None, s') \<longleftrightarrow> (\<exists>s1. f s = (None, s1) \<and> steps fs s1 = (None, s'))"
  by (cases "f s") (auto split: option.splits)

text \<open>A successful event block: the head, what the walker wrote for the fields, the close.\<close>

lemma event_block_success:
  assumes inv: "session_inv s" and run: "event_block chan event s = (None, s')"
  shows "\<exists>body. content s' = content s @ event_head_text chan event @ body @ event_close_text"
proof -
  let ?uri = "\<lambda>s. case model_emf_uri event of
               None \<Rightarrow> (None, s)
             | Some uri \<Rightarrow> lttng_metadata_printf s (event_uri_text uri)"
  from run obtain s1 s2 s3 s4 s5 where
    1: "lttng_metadata_printf s (event_open_text chan event) = (None, s1)" and
    2: "lttng_metadata_printf s1 (event_loglevel_text event) = (None, s2)" and
    3: "?uri s2 = (None, s3)" and
    4: "lttng_metadata_printf s3 event_fields_open_text = (None, s4)" and
    5: "lttng_fields_metadata_statedump s4 event = (None, s5)" and
    6: "lttng_metadata_printf s5 event_close_text = (None, s')"
    unfolding event_block_def steps_success_Cons by auto
  from printf_spec [OF inv 1] have i1: "session_inv s1"
    and c1: "content s1 = content s @ event_open_text chan event" by simp_all
  from printf_spec [OF i1 2] have i2: "session_inv s2"
    and c2: "content s2 = content s1 @ event_loglevel_text event" by simp_all
  have i3: "session_inv s3" and c3: "content s3 = content s2 @
      (case model_emf_uri event of None \<Rightarrow> [] | Some uri \<Rightarrow> event_uri_text uri)"
    using 3 i2 printf_spec [OF i2] by (auto split: option.splits)
  from printf_spec [OF i3 4] have i4: "session_inv s4"
    and c4: "content s4 = content s3 @ event_fields_open_text" by simp_all
  from emitterD [OF emitter_fields_statedump i4 5] have e5: "extends s4 s5" .
  then obtain body where c5: "content s5 = content s4 @ body"
    by (auto simp: extends_def prefix_def)
  from printf_spec [OF extends_inv [OF e5] 6]
  have c6: "content s' = content s5 @ event_close_text" by simp
  from c1 c2 c3 c4 c5 c6 show ?thesis by (simp add: event_head_text_def)
qed

lemma event_statedump_noop:
  "chan_id chan = - 1 \<or> \<not> chan_metadata_dumped chan \<or> event_metadata_dumped event \<Longrightarrow>
     ust_metadata_event_statedump s chan event = (None, s, event)"
  by (auto simp: ust_metadata_event_statedump_def)

lemma event_statedump_active:
  "chan_id chan \<noteq> - 1 \<Longrightarrow> chan_metadata_dumped chan \<Longrightarrow> \<not> event_metadata_dumped event \<Longrightarrow>
     ust_metadata_event_statedump s chan event =
       (case event_block chan event s of
           (Some e, s1) \<Rightarrow> (Some e, s1, event)
         | (None, s1) \<Rightarrow> (None, s1, event\<lparr>event_metadata_dumped := True\<rparr>))"
  by (simp add: ust_metadata_event_statedump_def)

lemma event_statedump_extends:
  assumes "session_inv s" "ust_metadata_event_statedump s chan event = (r, s', event')"
  shows "extends s s'"
proof (cases "chan_id chan = - 1 \<or> \<not> chan_metadata_dumped chan \<or> event_metadata_dumped event")
  case True
  from event_statedump_noop [OF True] assms show ?thesis by (simp add: extends_refl)
next
  case False
  then have a: "chan_id chan \<noteq> - 1" "chan_metadata_dumped chan" "\<not> event_metadata_dumped event"
    by simp_all
  obtain r1 s1 where b: "event_block chan event s = (r1, s1)"
    by (cases "event_block chan event s")
  from emitterD [OF emitter_event_block assms(1) b] have "extends s s1" .
  with assms(2) b show ?thesis
    unfolding event_statedump_active [OF a] by (cases r1) auto
qed

text \<open>The event block succeeds exactly when each of its six steps does, one after the other.\<close>

lemma event_block_chain:
  "event_block chan event s = (None, s') \<longleftrightarrow>
     (\<exists>s1 s2 s3 s4 s5.
        lttng_metadata_printf s (event_open_text chan event) = (None, s1) \<and>
        lttng_metadata_printf s1 (event_loglevel_text event) = (None, s2) \<and>
        (case model_emf_uri event of
           None \<Rightarrow> (None, s2)
         | Some uri \<Rightarrow> lttng_metadata_printf s2 (event_uri_text uri)) = (None, s3) \<and>
        lttng_metadata_printf s3 event_fields_open_text = (None, s4) \<and>
        lttng_fields_metadata_statedump s4 event = (None, s5) \<and>
        lttng_metadata_printf s5 event_close_text = (None, s'))"
  unfolding event_block_def steps_success_Cons by auto

lemma written_extends: "extends s s' \<Longrightarrow> content s' = content s @ written s s'"
  by (auto simp: extends_def prefix_def written_def)

lemma written_append: "content s' = content s @ c \<Longrightarrow> written s s' = c"
  by (simp add: written_def)

lemma event_block_contents:
  assumes inv: "session_inv s"
    and 1: "lttng_metadata_printf s (event_open_text chan event) = (None, s1)"
    and 2: "lttng_metadata_printf s1 (event_loglevel_text event) = (None, s2)"
    and 3: "(case model_emf_uri event of
               None \<Rightarrow> (None, s2)
             | Some uri \<Rightarrow> lttng_metadata_printf s2 (event_uri_text uri)) = (None, s3)"
    and 4: "lttng_metadata_printf s3 event_fields_open_text = (None, s4)"
    and 5: "lttng_fields_metadata_statedump s4 event = (None, s5)"
    and 6: "lttng_metadata_printf s5 event_close_text = (None, s')"
  shows "content s4 = content s @ event_head_text chan event"
    and "content s5 = content s4 @ written s4 s5"
    and "content s' =
           content s @ event_head_text chan event @ written s4 s5 @ event_close_text"
proof -
  from printf_spec [OF inv 1] have i1: "session_inv s1"
    and c1: "content s1 = content s @ event_open_text chan event" by simp_all
  from printf_spec [OF i1 2] have i2: "session_inv s2"
    and c2: "content s2 = content s1 @ event_loglevel_text event" by simp_all
  have i3: "session_inv s3" and c3: "content s3 = content s2 @
      (case model_emf_uri event of None \<Rightarrow> [] | Some uri \<Rightarrow> event_uri_text uri)"
    using 3 i2 printf_spec [OF i2] by (auto split: option.splits)
  from printf_spec [OF i3 4] have i4: "session_inv s4"
    and c4: "content s4 = content s3 @ event_fields_open_text" by simp_all
  from emitterD [OF emitter_fields_statedump i4 5] have e5: "extends s4 s5" .
  from printf_spec [OF extends_inv [OF e5] 6]
  have c6: "content s' = content s5 @ event_close_text" by simp
  from c1 c2 c3 c4 show a: "content s4 = content s @ event_head_text chan event"
    by (simp add: event_head_text_def)
  from written_extends [OF e5] show b: "content s5 = content s4 @ written s4 s5" .
  from a b c6 show "content s' =
           content s @ event_head_text chan event @ written s4 s5 @ event_close_text"
    by simp
qed

text \<open>
  C2. Take a session that satisfies the buffer invariant and a well-formed channel (the
  internal metadata channel is never ready). When the channel is not ready, or the event
  is already dumped, the dump returns success and leaves the session, so the buffer and
  the write cursor, and the event as they were. When the channel is ready and the event
  is not dumped, the dump succeeds exactly when each emission step succeeds from the
  session the step before left: the opening lines, the log level, the URI when there is
  one, the opening of the fields, the walk over the fields, the closing lines. Then the
  document is the old one followed by the event block (its head, what the walk over the
  fields wrote, its closing lines) and the event comes back with the flag set. The flag
  of the event that comes back is set exactly when the dump succeeded; a dump that fails
  returns its error and the event as it was, and the document before the call is the
  start of the document after it.
\<close>

theorem event_statedump_gate:
  assumes inv: "session_inv s" and wf: "channel_inv chan"
    and run: "ust_metadata_event_statedump s chan event = (r, s', event')"
  shows "(\<not> chan_metadata_dumped chan \<or> event_metadata_dumped event \<longrightarrow>
            r = None \<and> s' = s \<and> event' = event) \<and>
         (chan_metadata_dumped chan \<and> \<not> event_metadata_dumped event \<longrightarrow>
            (r = None \<longleftrightarrow>
               (\<exists>s1 s2 s3 s4 s5.
                  lttng_metadata_printf s (event_open_text chan event) = (None, s1) \<and>
                  lttng_metadata_printf s1 (event_loglevel_text event) = (None, s2) \<and>
                  (case model_emf_uri event of
                     None \<Rightarrow> (None, s2)
                   | Some uri \<Rightarrow> lttng_metadata_printf s2 (event_uri_text uri)) = (None, s3) \<and>
                  lttng_metadata_printf s3 event_fields_open_text = (None, s4) \<and>
                  lttng_fields_metadata_statedump s4 event = (None, s5) \<and>
                  lttng_metadata_printf s5 event_close_text = (None, s') \<and>
                  content s4 = content s @ event_head_text chan event \<and>
                  content s5 = content s4 @ written s4 s5 \<and>
                  content s' =
                    content s @ event_head_text chan event @ written s4 s5 @
                    event_close_text)) \<and>
            (event_metadata_dumped event' \<longleftrightarrow> r = None) \<and>
            (r = None \<longrightarrow>
               event' = event\<lparr>event_metadata_dumped := True\<rparr> \<and>
               (\<exists>body. content s' =
                  content s @ event_head_text chan event @ body @ event_close_text)) \<and>
            (r \<noteq> None \<longrightarrow> event' = event \<and> (r, s') = event_block chan event s) \<and>
            prefix (content s) (content s'))"
proof (cases "\<not> chan_metadata_dumped chan \<or> event_metadata_dumped event")
  case True
  then have "chan_id chan = - 1 \<or> \<not> chan_metadata_dumped chan \<or> event_metadata_dumped event"
    by blast
  from event_statedump_noop [OF this] run True show ?thesis by auto
next
  case False
  then have a: "chan_metadata_dumped chan" "\<not> event_metadata_dumped event" by simp_all
  with wf have id: "chan_id chan \<noteq> - 1" by (auto simp: channel_inv_def)
  obtain r1 s1 where b: "event_block chan event s = (r1, s1)"
    by (cases "event_block chan event s")
  note eq = run [unfolded event_statedump_active [OF id a]]
  from event_statedump_extends [OF inv run] have pre: "prefix (content s) (content s')"
    by (simp add: extends_def)
  let ?chain = "\<exists>s1 s2 s3 s4 s5.
        lttng_metadata_printf s (event_open_text chan event) = (None, s1) \<and>
        lttng_metadata_printf s1 (event_loglevel_text event) = (None, s2) \<and>
        (case model_emf_uri event of
           None \<Rightarrow> (None, s2)
         | Some uri \<Rightarrow> lttng_metadata_printf s2 (event_uri_text uri)) = (None, s3) \<and>
        lttng_metadata_printf s3 event_fields_open_text = (None, s4) \<and>
        lttng_fields_metadata_statedump s4 event = (None, s5) \<and>
        lttng_metadata_printf s5 event_close_text = (None, s') \<and>
        content s4 = content s @ event_head_text chan event \<and>
        content s5 = content s4 @ written s4 s5 \<and>
        content s' =
          content s @ event_head_text chan event @ written s4 s5 @ event_close_text"
  show ?thesis
  proof (cases r1)
    case None
    with eq b have res: "r = None" "s' = s1" "event' = event\<lparr>event_metadata_dumped := True\<rparr>"
      by simp_all
    from b None res have "event_block chan event s = (None, s')" by simp
    then obtain t1 t2 t3 t4 t5 where c:
      "lttng_metadata_printf s (event_open_text chan event) = (None, t1)"
      "lttng_metadata_printf t1 (event_loglevel_text event) = (None, t2)"
      "(case model_emf_uri event of
           None \<Rightarrow> (None, t2)
         | Some uri \<Rightarrow> lttng_metadata_printf t2 (event_uri_text uri)) = (None, t3)"
      "lttng_metadata_printf t3 event_fields_open_text = (None, t4)"
      "lttng_fields_metadata_statedump t4 event = (None, t5)"
      "lttng_metadata_printf t5 event_close_text = (None, s')"
      unfolding event_block_chain by blast
    note d = event_block_contents [OF inv c]
    from c d have chain: ?chain by blast
    from d(3) have "\<exists>body. content s' =
        content s @ event_head_text chan event @ body @ event_close_text"
      by blast
    with res pre a chain show ?thesis by simp
  next
    case (Some e)
    with eq b have res: "r = Some e" "s' = s1" "event' = event" by simp_all
    have "\<not> ?chain"
    proof
      assume ?chain
      then have "event_block chan event s = (None, s')" unfolding event_block_chain by blast
      with b Some show False by simp
    qed
    with res pre a b Some show ?thesis by simp
  qed
qed

lemmas dump_eval = ust_metadata_event_statedump_def event_block_def
  lttng_fields_metadata_statedump_def lttng_context_metadata_statedump_def
  statedump_fields_loop.simps field_statedump_unfold field_statedump_overflow
  dump_integer_def integer_decl_def bo_native_def encoding_name_def
  event_open_text_def event_loglevel_text_def event_uri_text_def event_fields_open_text_def
  event_close_text_def fmt_u.simps fmt_d_def digit_def

lemma content_fresh: "content fresh_session = []"
  by (simp add: content_def fresh_session_def)

theorem event_statedump_gate_witness:
  "session_inv fresh_session \<and> channel_inv ready_channel \<and>
   chan_metadata_dumped ready_channel \<and> \<not> event_metadata_dumped example_event \<and>
   fst (ust_metadata_event_statedump fresh_session ready_channel example_event) = None \<and>
   event_metadata_dumped
     (snd (snd (ust_metadata_event_statedump fresh_session ready_channel example_event))) \<and>
   content (fst (snd (ust_metadata_event_statedump fresh_session ready_channel example_event))) =
     ''event {'' @ NL @
     TAB @ ''name = '' @ DQUOTE @ ''ev'' @ DQUOTE @ '';'' @ NL @
     TAB @ ''id = 7;'' @ NL @
     TAB @ ''stream_id = 0;'' @ NL @
     TAB @ ''loglevel = 13;'' @ NL @
     TAB @ ''fields := struct {'' @ NL @
     TAB @ TAB @ ''integer { size = 32; align = 8; signed = 0; encoding = none; base = 10; } _x;'' @ NL @
     TAB @ ''};'' @ NL @
     ''};'' @ NL @ NL \<and>
   ust_metadata_event_statedump fresh_session
     (ready_channel\<lparr>chan_metadata_dumped := False\<rparr>) example_event =
     (None, fresh_session, example_event) \<and>
   \<not> event_metadata_dumped struct_event \<and>
   fst (ust_metadata_event_statedump fresh_session ready_channel struct_event) = Some EINVAL \<and>
   snd (snd (ust_metadata_event_statedump fresh_session ready_channel struct_event)) =
     struct_event \<and>
   content (fst (snd (ust_metadata_event_statedump fresh_session ready_channel struct_event))) =
     ''event {'' @ NL @
     TAB @ ''name = '' @ DQUOTE @ ''bad'' @ DQUOTE @ '';'' @ NL @
     TAB @ ''id = 0;'' @ NL @
     TAB @ ''stream_id = 0;'' @ NL @
     TAB @ ''loglevel = 13;'' @ NL @
     TAB @ ''fields := struct {'' @ NL"
proof -
  let ?run = "ust_metadata_event_statedump fresh_session ready_channel example_event"
  have inv: "session_inv fresh_session" by (simp add: session_inv_def fresh_session_def)
  have wf: "channel_inv ready_channel" by (simp add: channel_inv_def ready_channel_def)
  have wf': "channel_inv (ready_channel\<lparr>chan_metadata_dumped := False\<rparr>)"
    by (simp add: channel_inv_def ready_channel_def)
  have st: "chan_metadata_dumped ready_channel" "\<not> event_metadata_dumped example_event"
    by (simp_all add: ready_channel_def example_event_def)
  obtain r s' ev' where run: "?run = (r, s', ev')" by (cases ?run)
  have ok: "fst ?run = None"
    by (simp add: dump_eval calm_simps fits_fresh ready_channel_def example_event_def
        example_container_def)
  have doc: "content (fst (snd ?run)) =
     ''event {'' @ NL @
     TAB @ ''name = '' @ DQUOTE @ ''ev'' @ DQUOTE @ '';'' @ NL @
     TAB @ ''id = 7;'' @ NL @
     TAB @ ''stream_id = 0;'' @ NL @
     TAB @ ''loglevel = 13;'' @ NL @
     TAB @ ''fields := struct {'' @ NL @
     TAB @ TAB @ ''integer { size = 32; align = 8; signed = 0; encoding = none; base = 10; } _x;'' @ NL @
     TAB @ ''};'' @ NL @
     ''};'' @ NL @ NL"
    by (simp add: dump_eval calm_simps fits_fresh content_fresh ready_channel_def
        example_event_def example_container_def)
  from ok run have r: "r = None" by simp
  from event_statedump_gate [OF inv wf run] st r
  have "ev' = example_event\<lparr>event_metadata_dumped := True\<rparr>" by simp
  with run have fl: "event_metadata_dumped (snd (snd ?run))" by simp
  obtain r2 s2 ev2 where run2: "ust_metadata_event_statedump fresh_session
     (ready_channel\<lparr>chan_metadata_dumped := False\<rparr>) example_event = (r2, s2, ev2)"
    by (cases "ust_metadata_event_statedump fresh_session
     (ready_channel\<lparr>chan_metadata_dumped := False\<rparr>) example_event")
  from event_statedump_gate [OF inv wf' run2]
  have "r2 = None \<and> s2 = fresh_session \<and> ev2 = example_event" by simp
  with run2 have noop: "ust_metadata_event_statedump fresh_session
     (ready_channel\<lparr>chan_metadata_dumped := False\<rparr>) example_event =
     (None, fresh_session, example_event)" by simp
  let ?bad = "ust_metadata_event_statedump fresh_session ready_channel struct_event"
  have st3: "\<not> event_metadata_dumped struct_event" by (simp add: struct_event_def)
  have bad: "fst ?bad = Some EINVAL"
    by (simp add: dump_eval dump_struct_def calm_simps fits_fresh ready_channel_def
        struct_event_def)
  have bad_doc: "content (fst (snd ?bad)) =
     ''event {'' @ NL @
     TAB @ ''name = '' @ DQUOTE @ ''bad'' @ DQUOTE @ '';'' @ NL @
     TAB @ ''id = 0;'' @ NL @
     TAB @ ''stream_id = 0;'' @ NL @
     TAB @ ''loglevel = 13;'' @ NL @
     TAB @ ''fields := struct {'' @ NL"
    by (simp add: dump_eval dump_struct_def calm_simps fits_fresh content_fresh
        ready_channel_def struct_event_def)
  obtain r3 s3 ev3 where run3: "?bad = (r3, s3, ev3)" by (cases ?bad)
  with bad have r3: "r3 \<noteq> None" by simp
  from event_statedump_gate [OF inv wf run3] st(1) st3 r3 have "ev3 = struct_event" by simp
  with run3 have same: "snd (snd ?bad) = struct_event" by simp
  from inv wf st ok fl doc noop st3 bad same bad_doc show ?thesis by blast
qed

section \<open>The channel dump\<close>

lemma steps_Cons_cases:
  assumes "steps (f # fs) s = (r, s')"
  obtains (stop) e where "f s = (Some e, s')" "r = Some e"
        | (go) s1 where "f s = (None, s1)" "steps fs s1 = (r, s')"
  using assms by (cases "f s") (auto split: option.splits)

lemma written_same: "written s s = []"
  by (simp add: written_def)

text \<open>What one dump of an event leaves, in bytes.\<close>

lemma event_statedump_outcome:
  assumes inv: "session_inv s"
    and run: "ust_metadata_event_statedump s chan event = (r, s', event')"
  shows "event_outcome chan event r event' (written s s')"
proof (cases "chan_id chan = - 1 \<or> \<not> chan_metadata_dumped chan \<or> event_metadata_dumped event")
  case True
  from event_statedump_noop [OF True] run True show ?thesis
    by (simp add: event_outcome_def written_same)
next
  case False
  then have a: "chan_id chan \<noteq> - 1" "chan_metadata_dumped chan" "\<not> event_metadata_dumped event"
    by simp_all
  obtain r1 s1 where b: "event_block chan event s = (r1, s1)"
    by (cases "event_block chan event s")
  note eq = run [unfolded event_statedump_active [OF a]]
  show ?thesis
  proof (cases r1)
    case None
    with eq b have res: "r = None" "s' = s1" "event' = event\<lparr>event_metadata_dumped := True\<rparr>"
      by simp_all
    from b None res have "event_block chan event s = (None, s')" by simp
    then obtain t1 t2 t3 t4 t5 where c:
      "lttng_metadata_printf s (event_open_text chan event) = (None, t1)"
      "lttng_metadata_printf t1 (event_loglevel_text event) = (None, t2)"
      "(case model_emf_uri event of
           None \<Rightarrow> (None, t2)
         | Some uri \<Rightarrow> lttng_metadata_printf t2 (event_uri_text uri)) = (None, t3)"
      "lttng_metadata_printf t3 event_fields_open_text = (None, t4)"
      "lttng_fields_metadata_statedump t4 event = (None, t5)"
      "lttng_metadata_printf t5 event_close_text = (None, s')"
      unfolding event_block_chain by blast
    from event_block_contents(3) [OF inv c]
    have "written s s' = event_head_text chan event @ written t4 t5 @ event_close_text"
      by (rule written_append)
    then have "block_shaped chan event (written s s')"
      by (simp add: block_shaped_def suffix_def)
    with res False show ?thesis by (simp add: event_outcome_def)
  next
    case (Some e)
    with eq b have res: "r = Some e" "s' = s1" "event' = event" by simp_all
    let ?rest = "[\<lambda>s. lttng_metadata_printf s (event_loglevel_text event),
        \<lambda>s. case model_emf_uri event of
               None \<Rightarrow> (None, s)
             | Some uri \<Rightarrow> lttng_metadata_printf s (event_uri_text uri),
        \<lambda>s. lttng_metadata_printf s event_fields_open_text,
        \<lambda>s. lttng_fields_metadata_statedump s event,
        \<lambda>s. lttng_metadata_printf s event_close_text]"
    have uri: "emitter (\<lambda>s. case model_emf_uri event of
               None \<Rightarrow> (None, s)
             | Some uri \<Rightarrow> lttng_metadata_printf s (event_uri_text uri))"
      by (cases "model_emf_uri event") simp_all
    have rest: "emitter (steps ?rest)"
      by (rule emitter_steps) (simp add: uri emitter_fields_statedump)
    from b have "steps ((\<lambda>s. lttng_metadata_printf s (event_open_text chan event)) # ?rest) s
                   = (r1, s1)"
      by (simp add: event_block_def del: steps.simps)
    then have "written s s1 = [] \<or> prefix (event_open_text chan event) (written s s1)"
    proof (cases rule: steps_Cons_cases)
      case (stop e)
      from printf_spec [OF inv stop(1)] show ?thesis by (auto simp: written_def)
    next
      case (go s0)
      from printf_spec [OF inv go(1)]
      have i0: "session_inv s0" and c0: "content s0 = content s @ event_open_text chan event"
        by simp_all
      from emitterD [OF rest i0 go(2)] obtain m where "content s1 = content s0 @ m"
        by (auto simp: extends_def prefix_def)
      with c0 show ?thesis by (simp add: written_def)
    qed
    with res False show ?thesis by (simp add: event_outcome_def)
  qed
qed

text \<open>
  The loop over the sorted vector: the sessions it goes through, one dump of an event
  from each to the next, and what each dump appended.
\<close>

lemma dump_sorted_events_trace:
  assumes "session_inv s" "distinct order" "\<forall>i \<in> set order. i < length evs"
    and "dump_sorted_events s chan order evs = (s', evs')"
  shows "extends s s' \<and> length evs' = length evs \<and>
         (\<forall>i < length evs. i \<notin> set order \<longrightarrow> evs' ! i = evs ! i) \<and>
         (\<exists>ss rs. length ss = length order + 1 \<and> length rs = length order \<and>
            ss ! 0 = s \<and> ss ! length order = s' \<and>
            content s' = content s @ concat (map (\<lambda>k. written (ss ! k) (ss ! Suc k)) [0..<length order]) \<and>
            (\<forall>k < length order.
               session_inv (ss ! k) \<and>
               ust_metadata_event_statedump (ss ! k) chan (evs ! (order ! k)) =
                 (rs ! k, ss ! Suc k, evs' ! (order ! k)) \<and>
               content (ss ! Suc k) = content (ss ! k) @ written (ss ! k) (ss ! Suc k)))"
  using assms
proof (induction order arbitrary: s evs)
  case Nil
  then show ?case by (auto simp: extends_refl intro!: exI [of _ "[s]"])
next
  case (Cons i order)
  obtain r1 s1 ev1 where d: "ust_metadata_event_statedump s chan (evs ! i) = (r1, s1, ev1)"
    by (cases "ust_metadata_event_statedump s chan (evs ! i)")
  from event_statedump_extends [OF Cons.prems(1) d] have e1: "extends s s1" .
  let ?evs1 = "evs[i := ev1]"
  from Cons.prems(4) d have rest: "dump_sorted_events s1 chan order ?evs1 = (s', evs')"
    by simp
  from Cons.prems(2) have dist: "distinct order" and notin: "i \<notin> set order" by simp_all
  from Cons.prems(3) have il: "i < length evs" and bound: "\<forall>j \<in> set order. j < length ?evs1"
    by simp_all
  from Cons.IH [OF extends_inv [OF e1] dist bound rest]
  obtain ss rs where ih: "extends s1 s'" "length evs' = length ?evs1"
    "\<forall>j < length ?evs1. j \<notin> set order \<longrightarrow> evs' ! j = ?evs1 ! j"
    "length ss = length order + 1" "length rs = length order"
    "ss ! 0 = s1" "ss ! length order = s'"
    "content s' = content s1 @ concat (map (\<lambda>k. written (ss ! k) (ss ! Suc k)) [0..<length order])"
    "\<forall>k < length order.
       session_inv (ss ! k) \<and>
       ust_metadata_event_statedump (ss ! k) chan (?evs1 ! (order ! k)) =
         (rs ! k, ss ! Suc k, evs' ! (order ! k)) \<and>
       content (ss ! Suc k) = content (ss ! k) @ written (ss ! k) (ss ! Suc k)"
    by auto
  have ext: "extends s s'" using e1 ih(1) by (rule extends_trans)
  have len: "length evs' = length evs" using ih(2) by simp
  have keep: "\<forall>j < length evs. j \<notin> set (i # order) \<longrightarrow> evs' ! j = evs ! j"
    using ih(3) by auto
  from ih(3) il notin have at_i: "evs' ! i = ev1" by simp
  let ?ss = "s # ss" and ?rs = "r1 # rs"
  have l1: "length ?ss = length (i # order) + 1" using ih(4) by simp
  have l2: "length ?rs = length (i # order)" using ih(5) by simp
  have first: "?ss ! 0 = s" by simp
  have final: "?ss ! length (i # order) = s'" using ih(7) by simp
  have w0: "content s1 = content s @ written s s1" by (rule written_extends [OF e1])
  have shift: "map (\<lambda>k. written (?ss ! k) (?ss ! Suc k)) [0..<length (i # order)] =
               written s s1 # map (\<lambda>k. written (ss ! k) (ss ! Suc k)) [0..<length order]"
    using ih(6) by (simp add: map_upt_Suc del: upt_Suc)
  have doc: "content s' =
      content s @ concat (map (\<lambda>k. written (?ss ! k) (?ss ! Suc k)) [0..<length (i # order)])"
    unfolding shift using ih(8) w0 by simp
  have each: "\<forall>k < length (i # order).
       session_inv (?ss ! k) \<and>
       ust_metadata_event_statedump (?ss ! k) chan (evs ! ((i # order) ! k)) =
         (?rs ! k, ?ss ! Suc k, evs' ! ((i # order) ! k)) \<and>
       content (?ss ! Suc k) = content (?ss ! k) @ written (?ss ! k) (?ss ! Suc k)"
  proof (intro allI impI)
    fix k assume k: "k < length (i # order)"
    show "session_inv (?ss ! k) \<and>
       ust_metadata_event_statedump (?ss ! k) chan (evs ! ((i # order) ! k)) =
         (?rs ! k, ?ss ! Suc k, evs' ! ((i # order) ! k)) \<and>
       content (?ss ! Suc k) = content (?ss ! k) @ written (?ss ! k) (?ss ! Suc k)"
    proof (cases k)
      case 0
      with d at_i ih(6) w0 Cons.prems(1) show ?thesis by simp
    next
      case (Suc k')
      with k have k': "k' < length order" by simp
      then have "order ! k' \<noteq> i" using notin by (metis nth_mem)
      then have same: "?evs1 ! (order ! k') = evs ! (order ! k')" by simp
      from ih(9) k' have "session_inv (ss ! k') \<and>
       ust_metadata_event_statedump (ss ! k') chan (?evs1 ! (order ! k')) =
         (rs ! k', ss ! Suc k', evs' ! (order ! k')) \<and>
       content (ss ! Suc k') = content (ss ! k') @ written (ss ! k') (ss ! Suc k')"
        by blast
      then show ?thesis unfolding same Suc by simp
    qed
  qed
  from l1 l2 first final doc each
  have "\<exists>ss rs. length ss = length (i # order) + 1 \<and> length rs = length (i # order) \<and>
            ss ! 0 = s \<and> ss ! length (i # order) = s' \<and>
            content s' = content s @
              concat (map (\<lambda>k. written (ss ! k) (ss ! Suc k)) [0..<length (i # order)]) \<and>
            (\<forall>k < length (i # order).
               session_inv (ss ! k) \<and>
               ust_metadata_event_statedump (ss ! k) chan (evs ! ((i # order) ! k)) =
                 (rs ! k, ss ! Suc k, evs' ! ((i # order) ! k)) \<and>
               content (ss ! Suc k) = content (ss ! k) @ written (ss ! k) (ss ! Suc k))"
    by (intro exI [of _ ?ss] exI [of _ ?rs] conjI)
  with ext len keep show ?case by blast
qed

lemma dump_sorted_events_extends:
  assumes "session_inv s" "dump_sorted_events s chan order evs = (s', evs')"
  shows "extends s s'"
  using assms
proof (induction order arbitrary: s evs)
  case Nil
  then show ?case by (simp add: extends_refl)
next
  case (Cons i order)
  obtain r1 s1 ev1 where d: "ust_metadata_event_statedump s chan (evs ! i) = (r1, s1, ev1)"
    by (cases "ust_metadata_event_statedump s chan (evs ! i)")
  from event_statedump_extends [OF Cons.prems(1) d] have e1: "extends s s1" .
  from Cons.prems(2) d have "dump_sorted_events s1 chan order (evs[i := ev1]) = (s', evs')"
    by simp
  from Cons.IH [OF extends_inv [OF e1] this] e1 show ?case by (blast intro: extends_trans)
qed

lemma dump_sorted_events_all_dumped:
  assumes "\<forall>i \<in> set order. i < length evs" "\<forall>e \<in> set evs. event_metadata_dumped e"
  shows "dump_sorted_events s chan order evs = (s, evs)"
  using assms
proof (induction order)
  case Nil
  then show ?case by simp
next
  case (Cons i order)
  then have "event_metadata_dumped (evs ! i)" by simp
  then have "ust_metadata_event_statedump s chan (evs ! i) = (None, s, evs ! i)"
    by (simp add: event_statedump_noop)
  with Cons show ?case by simp
qed

text \<open>The model of \<^verbatim>\<open>std::sort\<close> gives what \<^verbatim>\<open>std::sort\<close> guarantees, and every vector that
  \<^verbatim>\<open>std::sort\<close> may leave is the model's for some \<open>rank\<close>.\<close>

lemma std_sort_sound: "std_sort_result evs (std_sort rank evs)"
proof -
  have "mset (std_sort rank evs) = mset [0..<length evs]"
    by (simp add: std_sort_def)
  then have "sort (std_sort rank evs) = sort [0..<length evs]"
    by (metis mset_sort properties_for_sort sorted_sort)
  moreover have "sorted (map (\<lambda>i. ev_id (evs ! i)) (std_sort rank evs))"
    unfolding std_sort_def by (rule sorted_sort_key)
  ultimately show ?thesis
    by (simp add: std_sort_result_def sorted_sort_id)
qed

lemma filter_eq_single: "distinct xs \<Longrightarrow> k \<in> set xs \<Longrightarrow> filter (\<lambda>x. k = x) xs = [k]"
proof (induction xs)
  case Nil
  then show ?case by simp
next
  case (Cons a xs)
  show ?case
  proof (cases "k = a")
    case True
    with Cons.prems have "k \<notin> set xs" by simp
    then have "filter (\<lambda>x. k = x) xs = []" by (auto simp: filter_empty_conv)
    with True show ?thesis by simp
  next
    case False
    with Cons show ?thesis by simp
  qed
qed

lemma std_sort_complete:
  assumes "std_sort_result evs order"
  shows "\<exists>r. std_sort r evs = order"
proof -
  from assms have p: "sort order = [0..<length evs]"
    and s: "sorted (map (\<lambda>i. ev_id (evs ! i)) order)"
    by (simp_all add: std_sort_result_def)
  from p have "distinct (sort order)" by simp
  then have d: "distinct order" by (simp only: distinct_sort)
  from p have "mset (sort order) = mset [0..<length evs]" by simp
  then have m: "mset order = mset [0..<length evs]" by (simp only: mset_sort)
  then have st: "set order = set [0..<length evs]" by (rule mset_eq_setD)
  define rank where "rank = (\<lambda>i. length (takeWhile (\<lambda>j. j \<noteq> i) order))"
  have pos: "rank (order ! k) = k" if k: "k < length order" for k
  proof -
    have "takeWhile (\<lambda>j. j \<noteq> order ! k) order = take k order"
    proof (rule takeWhile_eq_take_P_nth)
      fix i assume "i < k" "i < length order"
      with d k show "order ! i \<noteq> order ! k" by (simp add: nth_eq_iff_index_eq)
    qed simp
    with k show ?thesis by (simp add: rank_def)
  qed
  have inj: "rank a = rank b \<longleftrightarrow> a = b" if "a \<in> set order" "b \<in> set order" for a b
  proof -
    from that obtain i j where i: "i < length order" "order ! i = a"
      and j: "j < length order" "order ! j = b"
      unfolding in_set_conv_nth by blast
    from pos [OF i(1)] i(2) have ra: "rank a = i" by simp
    from pos [OF j(1)] j(2) have rb: "rank b = j" by simp
    show ?thesis
    proof
      assume "rank a = rank b"
      with ra rb have "i = j" by simp
      with i(2) j(2) show "a = b" by simp
    next
      assume "a = b"
      then show "rank a = rank b" by simp
    qed
  qed
  have "map rank order = [0..<length order]"
  proof (rule nth_equalityI)
    show "length (map rank order) = length [0..<length order]" by simp
    fix k assume "k < length (map rank order)"
    then have k: "k < length order" by simp
    with pos [OF k] show "map rank order ! k = [0..<length order] ! k" by simp
  qed
  then have sr: "sorted (map rank order)" by simp
  have fl: "filter (\<lambda>x. rank k = rank x) order = filter (\<lambda>x. rank k = rank x) [0..<length evs]"
    if k: "k \<in> set order" for k
  proof -
    from k st have k': "k \<in> set [0..<length evs]" by simp
    have "filter (\<lambda>x. rank k = rank x) order = filter (\<lambda>x. k = x) order"
      by (rule filter_cong [OF refl]) (simp only: inj [OF k])
    also have "\<dots> = [k]" by (rule filter_eq_single [OF d k])
    also have "[k] = filter (\<lambda>x. k = x) [0..<length evs]"
      by (rule filter_eq_single [OF distinct_upt k', symmetric])
    also have "\<dots> = filter (\<lambda>x. rank k = rank x) [0..<length evs]"
    proof (rule filter_cong [OF refl])
      fix x assume "x \<in> set [0..<length evs]"
      with st have "x \<in> set order" by simp
      from inj [OF k this] show "(k = x) = (rank k = rank x)" by simp
    qed
    finally show ?thesis .
  qed
  from properties_for_sort_key [OF m fl sr]
  have "sort_key rank [0..<length evs] = order" by simp
  with sort_key_id_if_sorted [OF s] have "std_sort rank evs = order"
    by (simp only: std_sort_def)
  then show "\<exists>r. std_sort r evs = order" by (rule exI [where x = rank])
qed


text \<open>What \<^verbatim>\<open>std::sort\<close> guarantees of the vector it leaves.\<close>

lemma std_sort_result_perm:
  assumes "std_sort_result evs order"
  shows "distinct order" "set order = {0..<length evs}" "length order = length evs"
    and "\<forall>i \<in> set order. i < length evs"
proof -
  from assms have p: "sort order = [0..<length evs]" by (simp add: std_sort_result_def)
  from p have "distinct (sort order)" by simp
  then show "distinct order" by (simp only: distinct_sort)
  from p have "set (sort order) = {0..<length evs}" by simp
  then show s: "set order = {0..<length evs}" by (simp only: set_sort)
  from p have "length (sort order) = length evs" by simp
  then show "length order = length evs" by (simp only: length_sort)
  from s show "\<forall>i \<in> set order. i < length evs" by simp
qed

lemma std_sort_result_ids:
  assumes "std_sort_result evs order"
  shows "map (\<lambda>i. ev_id (evs ! i)) order = sort (map ev_id evs)"
proof -
  from assms have p: "sort order = [0..<length evs]"
    and s: "sorted (map (\<lambda>i. ev_id (evs ! i)) order)"
    by (simp_all add: std_sort_result_def)
  from p have "mset (sort order) = mset [0..<length evs]" by simp
  then have m: "mset order = mset [0..<length evs]" by (simp only: mset_sort)
  have "map (\<lambda>i. ev_id (evs ! i)) [0..<length evs] = map ev_id evs"
    by (rule nth_equalityI) simp_all
  with m have "mset (map (\<lambda>i. ev_id (evs ! i)) order) = mset (map ev_id evs)"
    by (metis mset_map)
  from properties_for_sort [OF this s] show ?thesis by simp
qed

lemma std_sort_result_strict:
  assumes "std_sort_result evs order" "distinct (map ev_id evs)"
  shows "sorted_wrt (<) (map (\<lambda>i. ev_id (evs ! i)) order)"
proof -
  from assms(2) have "distinct (sort (map ev_id evs))" by simp
  then show ?thesis
    unfolding std_sort_result_ids [OF assms(1)] by (simp add: strict_sorted_iff)
qed

text \<open>The stream block succeeds exactly when each of its steps does.\<close>

lemma channel_stream_block_chain:
  "channel_stream_block chan s = (None, s') \<longleftrightarrow>
     (\<exists>sa sb sc sd.
        lttng_metadata_printf s (stream_open_text chan) = (None, sa) \<and>
        (if ctx_fields chan \<noteq> None then lttng_metadata_printf sa stream_context_open_text
         else (None, sa)) = (None, sb) \<and>
        lttng_context_metadata_statedump sb (ctx_fields chan) = (None, sc) \<and>
        (if ctx_fields chan \<noteq> None then lttng_metadata_printf sc stream_context_close_text
         else (None, sc)) = (None, sd) \<and>
        lttng_metadata_printf sd stream_close_text = (None, s'))"
  unfolding channel_stream_block_def steps_success_Cons by auto

lemma channel_stream_block_contents:
  assumes inv: "session_inv s"
    and 1: "lttng_metadata_printf s (stream_open_text chan) = (None, sa)"
    and 2: "(if ctx_fields chan \<noteq> None then lttng_metadata_printf sa stream_context_open_text
             else (None, sa)) = (None, sb)"
    and 3: "lttng_context_metadata_statedump sb (ctx_fields chan) = (None, sc)"
    and 4: "(if ctx_fields chan \<noteq> None then lttng_metadata_printf sc stream_context_close_text
             else (None, sc)) = (None, sd)"
    and 5: "lttng_metadata_printf sd stream_close_text = (None, s')"
  shows "content s' = content s @ stream_block_text chan (written sb sc)"
proof -
  from printf_spec [OF inv 1] have ia: "session_inv sa"
    and ca: "content sa = content s @ stream_open_text chan" by simp_all
  show ?thesis
  proof (cases "ctx_fields chan")
    case None
    with 2 3 4 have "sd = sa" by (simp add: lttng_context_metadata_statedump_def)
    with printf_spec [OF ia] 5 ca None show ?thesis
      by (simp add: stream_block_text_def)
  next
    case (Some flds)
    with 2 have open2: "lttng_metadata_printf sa stream_context_open_text = (None, sb)" by simp
    from Some 4 have close4: "lttng_metadata_printf sc stream_context_close_text = (None, sd)"
      by simp
    from printf_spec [OF ia open2] have ib: "session_inv sb"
      and cb: "content sb = content sa @ stream_context_open_text" by simp_all
    from emitterD [OF emitter_context_statedump ib 3] have e: "extends sb sc" .
    from printf_spec [OF extends_inv [OF e] close4] have id: "session_inv sd"
      and cd: "content sd = content sc @ stream_context_close_text" by simp_all
    from printf_spec [OF id 5] have "content s' = content sd @ stream_close_text" by simp
    with ca cb cd written_extends [OF e] Some show ?thesis
      by (simp add: stream_block_text_def)
  qed
qed

lemma emitter_channel_stream_block: "emitter (channel_stream_block chan)"
  unfolding channel_stream_block_def
  by (rule emitter_steps) (auto intro!: emitter_if simp: emitter_context_statedump)

lemma channel_stream_block_cong:
  "chan_id chan' = chan_id chan \<Longrightarrow> header_type chan' = header_type chan \<Longrightarrow>
   ctx_fields chan' = ctx_fields chan \<Longrightarrow>
   channel_stream_block chan' = channel_stream_block chan"
  by (simp add: channel_stream_block_def stream_open_text_def)

lemma channel_statedump_unfold:
  "chan_id chan \<noteq> - 1 \<Longrightarrow> header_type chan \<noteq> LTTNG_UST_CTL_CHANNEL_HEADER_UNKNOWN \<Longrightarrow>
   ust_metadata_channel_statedump s chan rank =
     (case channel_stream_block chan s of
        (Some e, s1) \<Rightarrow> (Some e, s1, chan)
      | (None, s1) \<Rightarrow>
          (let (s2, evs) = dump_sorted_events s1 (chan\<lparr>chan_metadata_dumped := True\<rparr>)
                             (std_sort rank (events chan)) (events chan)
           in (None, s2, chan\<lparr>chan_metadata_dumped := True, events := evs\<rparr>)))"
  by (simp add: ust_metadata_channel_statedump_def Let_def
      split: prod.splits option.splits)

lemma channel_statedump_skip:
  "chan_id chan = - 1 \<Longrightarrow> ust_metadata_channel_statedump s chan rank = (None, s, chan)"
  "chan_id chan \<noteq> - 1 \<Longrightarrow> header_type chan = LTTNG_UST_CTL_CHANNEL_HEADER_UNKNOWN \<Longrightarrow>
     ust_metadata_channel_statedump s chan rank = (Some EINVAL, s, chan)"
  by (simp_all add: ust_metadata_channel_statedump_def)

lemma channel_statedump_extends:
  assumes inv: "session_inv s"
    and run: "ust_metadata_channel_statedump s chan rank = (r, s', chan')"
  shows "extends s s'"
proof (cases "chan_id chan = - 1 \<or> header_type chan = LTTNG_UST_CTL_CHANNEL_HEADER_UNKNOWN")
  case True
  with run have "s' = s"
    by (auto simp: ust_metadata_channel_statedump_def split: if_splits)
  with inv show ?thesis by (simp add: extends_refl)
next
  case False
  then have a: "chan_id chan \<noteq> - 1" "header_type chan \<noteq> LTTNG_UST_CTL_CHANNEL_HEADER_UNKNOWN"
    by simp_all
  note eq = run [unfolded channel_statedump_unfold [OF a]]
  obtain r1 s1 where b: "channel_stream_block chan s = (r1, s1)"
    by (cases "channel_stream_block chan s")
  from emitterD [OF emitter_channel_stream_block inv b] have e1: "extends s s1" .
  show ?thesis
  proof (cases r1)
    case (Some e)
    with eq b e1 show ?thesis by simp
  next
    case None
    obtain s2 evs where d: "dump_sorted_events s1 (chan\<lparr>chan_metadata_dumped := True\<rparr>)
                                (std_sort rank (events chan)) (events chan) = (s2, evs)"
      by (cases "dump_sorted_events s1 (chan\<lparr>chan_metadata_dumped := True\<rparr>)
                   (std_sort rank (events chan)) (events chan)")
    with eq b None have "s' = s2" by simp
    with dump_sorted_events_extends [OF extends_inv [OF e1] d] e1 show ?thesis
      by (blast intro: extends_trans)
  qed
qed

text \<open>
  Past its own emission the channel dump is the loop over the sorted vector, from the
  session the stream block left.
\<close>

lemma channel_statedump_events:
  assumes inv: "session_inv s"
    and id: "chan_id chan \<noteq> - 1"
    and hdr: "header_type chan \<noteq> LTTNG_UST_CTL_CHANNEL_HEADER_UNKNOWN"
    and order: "order = std_sort rank (events chan)"
    and own: "channel_stream_block chan s = (None, sh)"
    and run: "ust_metadata_channel_statedump s chan rank = (r, s', chan')"
  shows "r = None \<and> chan_metadata_dumped chan' \<and> chan_id chan' = chan_id chan \<and>
         header_type chan' = header_type chan \<and> ctx_fields chan' = ctx_fields chan \<and>
         length (events chan') = length (events chan) \<and>
         (\<forall>i < length (events chan). i \<notin> set order \<longrightarrow> events chan' ! i = events chan ! i) \<and>
         (\<exists>ss rs. length ss = length order + 1 \<and> length rs = length order \<and>
            ss ! 0 = sh \<and> ss ! length order = s' \<and>
            content s' =
              content sh @
              concat (map (\<lambda>k. written (ss ! k) (ss ! Suc k)) [0..<length order]) \<and>
            (\<forall>k < length order.
               ust_metadata_event_statedump (ss ! k) (chan\<lparr>chan_metadata_dumped := True\<rparr>)
                   (events chan ! (order ! k)) =
                 (rs ! k, ss ! Suc k, events chan' ! (order ! k)) \<and>
               content (ss ! Suc k) = content (ss ! k) @ written (ss ! k) (ss ! Suc k) \<and>
               event_outcome (chan\<lparr>chan_metadata_dumped := True\<rparr>) (events chan ! (order ! k))
                 (rs ! k) (events chan' ! (order ! k)) (written (ss ! k) (ss ! Suc k))))"
proof -
  let ?ready = "chan\<lparr>chan_metadata_dumped := True\<rparr>"
  note p = std_sort_result_perm [OF std_sort_sound [of "events chan" rank], folded order]
  note dist = p(1) and bound = p(4)
  note eq = run [unfolded channel_statedump_unfold [OF id hdr], folded order]
  from emitterD [OF emitter_channel_stream_block inv own] have e1: "extends s sh" .
  obtain s2 evs where d: "dump_sorted_events sh ?ready order (events chan) = (s2, evs)"
    by (cases "dump_sorted_events sh ?ready order (events chan)")
  with eq own have res: "r = None" "s' = s2"
    "chan' = chan\<lparr>chan_metadata_dumped := True, events := evs\<rparr>"
    by simp_all
  from dump_sorted_events_trace [OF extends_inv [OF e1] dist bound d]
  obtain ss rs where t: "length evs = length (events chan)"
    "\<forall>i < length (events chan). i \<notin> set order \<longrightarrow> evs ! i = events chan ! i"
    "length ss = length order + 1" "length rs = length order"
    "ss ! 0 = sh" "ss ! length order = s2"
    "content s2 = content sh @
       concat (map (\<lambda>k. written (ss ! k) (ss ! Suc k)) [0..<length order])"
    "\<forall>k < length order.
       session_inv (ss ! k) \<and>
       ust_metadata_event_statedump (ss ! k) ?ready (events chan ! (order ! k)) =
         (rs ! k, ss ! Suc k, evs ! (order ! k)) \<and>
       content (ss ! Suc k) = content (ss ! k) @ written (ss ! k) (ss ! Suc k)"
    by auto
  have each: "\<forall>k < length order.
       ust_metadata_event_statedump (ss ! k) ?ready (events chan ! (order ! k)) =
         (rs ! k, ss ! Suc k, events chan' ! (order ! k)) \<and>
       content (ss ! Suc k) = content (ss ! k) @ written (ss ! k) (ss ! Suc k) \<and>
       event_outcome ?ready (events chan ! (order ! k))
         (rs ! k) (events chan' ! (order ! k)) (written (ss ! k) (ss ! Suc k))"
  proof (intro allI impI)
    fix k assume "k < length order"
    with t(8) have i: "session_inv (ss ! k)"
      and r: "ust_metadata_event_statedump (ss ! k) ?ready (events chan ! (order ! k)) =
         (rs ! k, ss ! Suc k, evs ! (order ! k))"
      and c: "content (ss ! Suc k) = content (ss ! k) @ written (ss ! k) (ss ! Suc k)"
      by blast+
    from event_statedump_outcome [OF i r] r c res(3)
    show "ust_metadata_event_statedump (ss ! k) ?ready (events chan ! (order ! k)) =
         (rs ! k, ss ! Suc k, events chan' ! (order ! k)) \<and>
       content (ss ! Suc k) = content (ss ! k) @ written (ss ! k) (ss ! Suc k) \<and>
       event_outcome ?ready (events chan ! (order ! k))
         (rs ! k) (events chan' ! (order ! k)) (written (ss ! k) (ss ! Suc k))"
      by simp
  qed
  from t(3-7) each res(2)
  have "\<exists>ss rs. length ss = length order + 1 \<and> length rs = length order \<and>
            ss ! 0 = sh \<and> ss ! length order = s' \<and>
            content s' =
              content sh @
              concat (map (\<lambda>k. written (ss ! k) (ss ! Suc k)) [0..<length order]) \<and>
            (\<forall>k < length order.
               ust_metadata_event_statedump (ss ! k) ?ready (events chan ! (order ! k)) =
                 (rs ! k, ss ! Suc k, events chan' ! (order ! k)) \<and>
               content (ss ! Suc k) = content (ss ! k) @ written (ss ! k) (ss ! Suc k) \<and>
               event_outcome ?ready (events chan ! (order ! k))
                 (rs ! k) (events chan' ! (order ! k)) (written (ss ! k) (ss ! Suc k)))"
    by (intro exI [of _ ss] exI [of _ rs]) simp
  with res t(1,2) show ?thesis by simp
qed

section \<open>The order of the events\<close>

text \<open>
  C4. Take a channel that is not the metadata channel and has a header type, and let
  \<open>order\<close> be the vector that the sort leaves, whatever decides the order of equal ids.
  When the emission of the stream block
  fails, the dump returns that error and no event is dumped. When it succeeds, leaving the
  session \<open>sh\<close>, the dump goes through one session for each event: from the \<open>k\<close>-th session
  to the next one it is the dump of the event at place \<open>k\<close> of \<open>order\<close>, and the document
  of the last session is that of \<open>sh\<close> followed by what these dumps appended, in this
  order. What the dump of an event appends is nothing when the event is already dumped,
  its whole block (the head with its name and id first) when the dump succeeds, and
  nothing or a text that starts with the opening lines of the block when it fails. The
  vector \<open>order\<close> is a permutation of the positions of the table, and the ids of the events
  along it are the ids of the table sorted in ascending order, whatever the order of the
  table; they ascend strictly when the ids are distinct.
\<close>

theorem channel_statedump_event_order:
  assumes inv: "session_inv s"
    and id: "chan_id chan \<noteq> - 1"
    and hdr: "header_type chan \<noteq> LTTNG_UST_CTL_CHANNEL_HEADER_UNKNOWN"
    and order: "order = std_sort rank (events chan)"
    and own: "channel_stream_block chan s = (r1, sh)"
    and run: "ust_metadata_channel_statedump s chan rank = (r, s', chan')"
  shows "distinct order \<and> set order = {0..<length (events chan)} \<and>
         map (\<lambda>i. ev_id (events chan ! i)) order = sort (map ev_id (events chan)) \<and>
         (distinct (map ev_id (events chan)) \<longrightarrow>
            sorted_wrt (<) (map (\<lambda>i. ev_id (events chan ! i)) order)) \<and>
         (r1 \<noteq> None \<longrightarrow> r = r1 \<and> s' = sh \<and> chan' = chan) \<and>
         (r1 = None \<longrightarrow>
            r = None \<and>
            (\<exists>ss rs.
               length ss = length (events chan) + 1 \<and> length rs = length (events chan) \<and>
               ss ! 0 = sh \<and> ss ! length (events chan) = s' \<and>
               content s' =
                 content sh @
                 concat (map (\<lambda>k. written (ss ! k) (ss ! Suc k)) [0..<length (events chan)]) \<and>
               (\<forall>k < length (events chan).
                  ust_metadata_event_statedump (ss ! k) (chan\<lparr>chan_metadata_dumped := True\<rparr>)
                      (events chan ! (order ! k)) =
                    (rs ! k, ss ! Suc k, events chan' ! (order ! k)) \<and>
                  content (ss ! Suc k) = content (ss ! k) @ written (ss ! k) (ss ! Suc k) \<and>
                  event_outcome (chan\<lparr>chan_metadata_dumped := True\<rparr>)
                    (events chan ! (order ! k)) (rs ! k) (events chan' ! (order ! k))
                    (written (ss ! k) (ss ! Suc k)))))"
proof -
  note ord = std_sort_sound [of "events chan" rank, folded order]
  note p = std_sort_result_perm [OF ord]
  have fail: "r = r1 \<and> s' = sh \<and> chan' = chan" if "r1 \<noteq> None"
    using that run own unfolding channel_statedump_unfold [OF id hdr] by auto
  have ok: "r = None \<and>
            (\<exists>ss rs.
               length ss = length (events chan) + 1 \<and> length rs = length (events chan) \<and>
               ss ! 0 = sh \<and> ss ! length (events chan) = s' \<and>
               content s' =
                 content sh @
                 concat (map (\<lambda>k. written (ss ! k) (ss ! Suc k)) [0..<length (events chan)]) \<and>
               (\<forall>k < length (events chan).
                  ust_metadata_event_statedump (ss ! k) (chan\<lparr>chan_metadata_dumped := True\<rparr>)
                      (events chan ! (order ! k)) =
                    (rs ! k, ss ! Suc k, events chan' ! (order ! k)) \<and>
                  content (ss ! Suc k) = content (ss ! k) @ written (ss ! k) (ss ! Suc k) \<and>
                  event_outcome (chan\<lparr>chan_metadata_dumped := True\<rparr>)
                    (events chan ! (order ! k)) (rs ! k) (events chan' ! (order ! k))
                    (written (ss ! k) (ss ! Suc k))))"
    if "r1 = None"
  proof -
    from that own have own': "channel_stream_block chan s = (None, sh)" by simp
    note t = channel_statedump_events [OF inv id hdr order own' run, unfolded p(3)]
    from t have 1: "r = None" by simp
    from t have 2: "\<exists>ss rs.
               length ss = length (events chan) + 1 \<and> length rs = length (events chan) \<and>
               ss ! 0 = sh \<and> ss ! length (events chan) = s' \<and>
               content s' =
                 content sh @
                 concat (map (\<lambda>k. written (ss ! k) (ss ! Suc k)) [0..<length (events chan)]) \<and>
               (\<forall>k < length (events chan).
                  ust_metadata_event_statedump (ss ! k) (chan\<lparr>chan_metadata_dumped := True\<rparr>)
                      (events chan ! (order ! k)) =
                    (rs ! k, ss ! Suc k, events chan' ! (order ! k)) \<and>
                  content (ss ! Suc k) = content (ss ! k) @ written (ss ! k) (ss ! Suc k) \<and>
                  event_outcome (chan\<lparr>chan_metadata_dumped := True\<rparr>)
                    (events chan ! (order ! k)) (rs ! k) (events chan' ! (order ! k))
                    (written (ss ! k) (ss ! Suc k)))"
      by blast
    from 1 2 show ?thesis by (rule conjI)
  qed
  from p(1) p(2) std_sort_result_ids [OF ord] std_sort_result_strict [OF ord] fail ok
  show ?thesis by blast
qed

lemmas sort_eval = std_sort_def upt_rec [of 0] upt_rec [of 1] upt_rec [of 2] upt_rec [of 3]
  word_le_nat_alt

lemma example_sorted: "std_sort (\<lambda>i. i) (events example_channel) = [1, 2, 0]"
  by (simp add: sort_eval example_channel_def plain_event_def)

lemma example_channel_unfold:
  "ust_metadata_channel_statedump s example_channel (\<lambda>i. i) =
     (case channel_stream_block example_channel s of
        (Some e, s1) \<Rightarrow> (Some e, s1, example_channel)
      | (None, s1) \<Rightarrow>
          (let (s2, evs) = dump_sorted_events s1 (example_channel\<lparr>chan_metadata_dumped := True\<rparr>)
                             [1, 2, 0] (events example_channel)
           in (None, s2, example_channel\<lparr>chan_metadata_dumped := True, events := evs\<rparr>)))"
proof -
  have a: "chan_id example_channel \<noteq> - 1"
    "header_type example_channel \<noteq> LTTNG_UST_CTL_CHANNEL_HEADER_UNKNOWN"
    by (simp_all add: example_channel_def)
  show ?thesis by (simp only: channel_statedump_unfold [OF a] example_sorted)
qed

lemmas channel_eval = channel_stream_block_def
  stream_open_text_def stream_close_text_def stream_context_open_text_def
  stream_context_close_text_def

lemma example_channel_run:
  "fst (channel_stream_block example_channel fresh_session) = None \<and>
   fst (ust_metadata_channel_statedump fresh_session example_channel (\<lambda>i. i)) = None \<and>
   content (fst (snd (ust_metadata_channel_statedump fresh_session example_channel (\<lambda>i. i)))) =
     ''stream {'' @ NL @
     TAB @ ''id = 0;'' @ NL @
     TAB @ ''event.header := struct event_header_compact;'' @ NL @
     TAB @ ''packet.context := struct packet_context;'' @ NL @
     ''};'' @ NL @ NL @
     ''event {'' @ NL @
     TAB @ ''name = '' @ DQUOTE @ ''a'' @ DQUOTE @ '';'' @ NL @
     TAB @ ''id = 1;'' @ NL @
     TAB @ ''stream_id = 0;'' @ NL @
     TAB @ ''loglevel = 13;'' @ NL @
     TAB @ ''fields := struct {'' @ NL @
     TAB @ ''};'' @ NL @
     ''};'' @ NL @ NL @
     ''event {'' @ NL @
     TAB @ ''name = '' @ DQUOTE @ ''c'' @ DQUOTE @ '';'' @ NL @
     TAB @ ''id = 3;'' @ NL @
     TAB @ ''stream_id = 0;'' @ NL @
     TAB @ ''loglevel = 13;'' @ NL @
     TAB @ ''fields := struct {'' @ NL @
     TAB @ ''};'' @ NL @
     ''};'' @ NL @ NL @
     ''event {'' @ NL @
     TAB @ ''name = '' @ DQUOTE @ ''e'' @ DQUOTE @ '';'' @ NL @
     TAB @ ''id = 5;'' @ NL @
     TAB @ ''stream_id = 0;'' @ NL @
     TAB @ ''loglevel = 13;'' @ NL @
     TAB @ ''fields := struct {'' @ NL @
     TAB @ ''};'' @ NL @
     ''};'' @ NL @ NL"
  unfolding example_channel_unfold
  by (simp add: channel_eval dump_eval calm_simps fits_fresh content_fresh
      example_channel_def plain_event_def)

theorem channel_statedump_event_order_witness:
  "session_inv fresh_session \<and> chan_id example_channel \<noteq> - 1 \<and>
   header_type example_channel \<noteq> LTTNG_UST_CTL_CHANNEL_HEADER_UNKNOWN \<and>
   map ev_id (events example_channel) = [5, 1, 3] \<and>
   std_sort (\<lambda>i. i) (events example_channel) = [1, 2, 0] \<and>
   fst (channel_stream_block example_channel fresh_session) = None \<and>
   map (\<lambda>i. ev_id (events example_channel ! i)) [1, 2, 0] = [1, 3, 5] \<and>
   sort (map ev_id (events example_channel)) = [1, 3, 5] \<and>
   fst (ust_metadata_channel_statedump fresh_session example_channel (\<lambda>i. i)) = None \<and>
   content (fst (snd (ust_metadata_channel_statedump fresh_session example_channel (\<lambda>i. i)))) =
     ''stream {'' @ NL @
     TAB @ ''id = 0;'' @ NL @
     TAB @ ''event.header := struct event_header_compact;'' @ NL @
     TAB @ ''packet.context := struct packet_context;'' @ NL @
     ''};'' @ NL @ NL @
     ''event {'' @ NL @
     TAB @ ''name = '' @ DQUOTE @ ''a'' @ DQUOTE @ '';'' @ NL @
     TAB @ ''id = 1;'' @ NL @
     TAB @ ''stream_id = 0;'' @ NL @
     TAB @ ''loglevel = 13;'' @ NL @
     TAB @ ''fields := struct {'' @ NL @
     TAB @ ''};'' @ NL @
     ''};'' @ NL @ NL @
     ''event {'' @ NL @
     TAB @ ''name = '' @ DQUOTE @ ''c'' @ DQUOTE @ '';'' @ NL @
     TAB @ ''id = 3;'' @ NL @
     TAB @ ''stream_id = 0;'' @ NL @
     TAB @ ''loglevel = 13;'' @ NL @
     TAB @ ''fields := struct {'' @ NL @
     TAB @ ''};'' @ NL @
     ''};'' @ NL @ NL @
     ''event {'' @ NL @
     TAB @ ''name = '' @ DQUOTE @ ''e'' @ DQUOTE @ '';'' @ NL @
     TAB @ ''id = 5;'' @ NL @
     TAB @ ''stream_id = 0;'' @ NL @
     TAB @ ''loglevel = 13;'' @ NL @
     TAB @ ''fields := struct {'' @ NL @
     TAB @ ''};'' @ NL @
     ''};'' @ NL @ NL"
proof -
  let ?run = "ust_metadata_channel_statedump fresh_session example_channel (\<lambda>i. i)"
  let ?own = "channel_stream_block example_channel fresh_session"
  have inv: "session_inv fresh_session" by (simp add: session_inv_def fresh_session_def)
  have a: "chan_id example_channel \<noteq> - 1"
    "header_type example_channel \<noteq> LTTNG_UST_CTL_CHANNEL_HEADER_UNKNOWN"
    by (simp_all add: example_channel_def)
  have ids: "map ev_id (events example_channel) = [5, 1, 3]"
    by (simp add: example_channel_def plain_event_def)
  have along: "map (\<lambda>i. ev_id (events example_channel ! i)) [1, 2, 0] = [1, 3, 5]"
    by (simp add: example_channel_def plain_event_def)
  obtain sh where own: "?own = (None, sh)" using example_channel_run by (cases ?own) auto
  obtain r s' chan' where run: "?run = (r, s', chan')" by (cases ?run)
  from channel_statedump_event_order [OF inv a example_sorted [symmetric] own run]
  have "map (\<lambda>i. ev_id (events example_channel ! i)) [1, 2, 0] =
          sort (map ev_id (events example_channel))"
    by blast
  with along have sorted_ids: "sort (map ev_id (events example_channel)) = [1, 3, 5]" by simp
  from inv a ids example_sorted along sorted_ids example_channel_run show ?thesis by blast
qed

section \<open>Dumping twice\<close>

lemma event_statedump_twice:
  assumes "ust_metadata_event_statedump s chan event = (None, s1, event1)"
  shows "ust_metadata_event_statedump s1 chan event1 = (None, s1, event1)"
proof (cases "chan_id chan = - 1 \<or> \<not> chan_metadata_dumped chan \<or> event_metadata_dumped event")
  case True
  from event_statedump_noop [OF True] assms have "s1 = s" "event1 = event" by simp_all
  with event_statedump_noop [OF True] show ?thesis by simp
next
  case False
  then have a: "chan_id chan \<noteq> - 1" "chan_metadata_dumped chan" "\<not> event_metadata_dumped event"
    by simp_all
  from assms have "event_metadata_dumped event1"
    unfolding event_statedump_active [OF a] by (auto split: prod.splits option.splits)
  then show ?thesis by (simp add: event_statedump_noop)
qed

lemma channel_statedump_result:
  assumes "ust_metadata_channel_statedump s chan rank = (None, s1, chan1)" "chan_id chan \<noteq> - 1"
  shows "chan_id chan1 = chan_id chan \<and> header_type chan1 = header_type chan \<and>
         ctx_fields chan1 = ctx_fields chan \<and> chan_metadata_dumped chan1 \<and>
         header_type chan \<noteq> LTTNG_UST_CTL_CHANNEL_HEADER_UNKNOWN"
  using assms
  by (auto simp: ust_metadata_channel_statedump_def Let_def
      split: if_splits prod.splits option.splits)

text \<open>
  C3. A successful dump of an event, repeated on the session and the event it left,
  returns success and leaves both as they are. A successful dump of a channel sets its
  flag and does not read it: a second dump of the channel it left, from the session it
  left, emits the stream block once more, step by step (the opening, the context fields
  when there are any, the close), and then goes through the events in the order \<open>order2\<close>
  that the sort leaves, as the first dump did.
  The dump of an event whose flag is set appends nothing and leaves the event as it is; so
  when every flag is set the second dump appends the stream block and nothing else.
\<close>

theorem dump_twice:
  assumes inv: "session_inv s"
  shows "(ust_metadata_event_statedump s chan event = (None, s3, event3) \<longrightarrow>
            ust_metadata_event_statedump s3 chan event3 = (None, s3, event3)) \<and>
         (chan_id chan \<noteq> - 1 \<and>
          ust_metadata_channel_statedump s chan rank = (None, s1, chan1) \<and>
          order2 = std_sort rank2 (events chan1) \<and>
          ust_metadata_channel_statedump s1 chan1 rank2 = (None, s2, chan2) \<longrightarrow>
            chan_metadata_dumped chan1 \<and>
            (\<exists>sa sb sc sd sh.
               lttng_metadata_printf s1 (stream_open_text chan) = (None, sa) \<and>
               (if ctx_fields chan \<noteq> None
                then lttng_metadata_printf sa stream_context_open_text
                else (None, sa)) = (None, sb) \<and>
               lttng_context_metadata_statedump sb (ctx_fields chan) = (None, sc) \<and>
               (if ctx_fields chan \<noteq> None
                then lttng_metadata_printf sc stream_context_close_text
                else (None, sc)) = (None, sd) \<and>
               lttng_metadata_printf sd stream_close_text = (None, sh) \<and>
               content sh = content s1 @ stream_block_text chan (written sb sc) \<and>
               (\<exists>ss rs.
                  length ss = length (events chan1) + 1 \<and> length rs = length (events chan1) \<and>
                  ss ! 0 = sh \<and> ss ! length (events chan1) = s2 \<and>
                  content s2 =
                    content sh @
                    concat (map (\<lambda>k. written (ss ! k) (ss ! Suc k))
                              [0..<length (events chan1)]) \<and>
                  (\<forall>k < length (events chan1).
                     ust_metadata_event_statedump (ss ! k) chan1 (events chan1 ! (order2 ! k)) =
                       (rs ! k, ss ! Suc k, events chan2 ! (order2 ! k)) \<and>
                     content (ss ! Suc k) = content (ss ! k) @ written (ss ! k) (ss ! Suc k) \<and>
                     event_outcome chan1 (events chan1 ! (order2 ! k)) (rs ! k)
                       (events chan2 ! (order2 ! k)) (written (ss ! k) (ss ! Suc k)) \<and>
                     (event_metadata_dumped (events chan1 ! (order2 ! k)) \<longrightarrow>
                        ss ! Suc k = ss ! k \<and>
                        events chan2 ! (order2 ! k) = events chan1 ! (order2 ! k)))) \<and>
               ((\<forall>e \<in> set (events chan1). event_metadata_dumped e) \<longrightarrow>
                  s2 = sh \<and> events chan2 = events chan1 \<and>
                  content s2 = content s1 @ stream_block_text chan (written sb sc))))"
proof -
  have ev: "ust_metadata_event_statedump s3 chan event3 = (None, s3, event3)"
    if "ust_metadata_event_statedump s chan event = (None, s3, event3)"
    using that by (rule event_statedump_twice)
  have ch: "chan_metadata_dumped chan1 \<and>
            (\<exists>sa sb sc sd sh.
               lttng_metadata_printf s1 (stream_open_text chan) = (None, sa) \<and>
               (if ctx_fields chan \<noteq> None
                then lttng_metadata_printf sa stream_context_open_text
                else (None, sa)) = (None, sb) \<and>
               lttng_context_metadata_statedump sb (ctx_fields chan) = (None, sc) \<and>
               (if ctx_fields chan \<noteq> None
                then lttng_metadata_printf sc stream_context_close_text
                else (None, sc)) = (None, sd) \<and>
               lttng_metadata_printf sd stream_close_text = (None, sh) \<and>
               content sh = content s1 @ stream_block_text chan (written sb sc) \<and>
               (\<exists>ss rs.
                  length ss = length (events chan1) + 1 \<and> length rs = length (events chan1) \<and>
                  ss ! 0 = sh \<and> ss ! length (events chan1) = s2 \<and>
                  content s2 =
                    content sh @
                    concat (map (\<lambda>k. written (ss ! k) (ss ! Suc k))
                              [0..<length (events chan1)]) \<and>
                  (\<forall>k < length (events chan1).
                     ust_metadata_event_statedump (ss ! k) chan1 (events chan1 ! (order2 ! k)) =
                       (rs ! k, ss ! Suc k, events chan2 ! (order2 ! k)) \<and>
                     content (ss ! Suc k) = content (ss ! k) @ written (ss ! k) (ss ! Suc k) \<and>
                     event_outcome chan1 (events chan1 ! (order2 ! k)) (rs ! k)
                       (events chan2 ! (order2 ! k)) (written (ss ! k) (ss ! Suc k)) \<and>
                     (event_metadata_dumped (events chan1 ! (order2 ! k)) \<longrightarrow>
                        ss ! Suc k = ss ! k \<and>
                        events chan2 ! (order2 ! k) = events chan1 ! (order2 ! k)))) \<and>
               ((\<forall>e \<in> set (events chan1). event_metadata_dumped e) \<longrightarrow>
                  s2 = sh \<and> events chan2 = events chan1 \<and>
                  content s2 = content s1 @ stream_block_text chan (written sb sc)))"
    if a: "chan_id chan \<noteq> - 1 \<and>
          ust_metadata_channel_statedump s chan rank = (None, s1, chan1) \<and>
          order2 = std_sort rank2 (events chan1) \<and>
          ust_metadata_channel_statedump s1 chan1 rank2 = (None, s2, chan2)"
  proof -
    from a have id: "chan_id chan \<noteq> - 1"
      and first: "ust_metadata_channel_statedump s chan rank = (None, s1, chan1)"
      and order2: "order2 = std_sort rank2 (events chan1)"
      and second: "ust_metadata_channel_statedump s1 chan1 rank2 = (None, s2, chan2)"
      by simp_all
    from channel_statedump_result [OF first id]
    have same: "chan_id chan1 = chan_id chan" "header_type chan1 = header_type chan"
      "ctx_fields chan1 = ctx_fields chan"
      and ready: "chan_metadata_dumped chan1"
      and hdr: "header_type chan \<noteq> LTTNG_UST_CTL_CHANNEL_HEADER_UNKNOWN" by simp_all
    from ready have upd: "chan1\<lparr>chan_metadata_dumped := True\<rparr> = chan1" by simp
    from same id hdr have id1: "chan_id chan1 \<noteq> - 1"
      and hdr1: "header_type chan1 \<noteq> LTTNG_UST_CTL_CHANNEL_HEADER_UNKNOWN" by simp_all
    have blk: "channel_stream_block chan1 = channel_stream_block chan"
      by (rule channel_stream_block_cong [OF same])
    from channel_statedump_extends [OF inv first] have inv1: "session_inv s1"
      by (simp add: extends_def)
    obtain r1 sh where own: "channel_stream_block chan s1 = (r1, sh)"
      by (cases "channel_stream_block chan s1")
    from second own have "r1 = None"
      unfolding channel_statedump_unfold [OF id1 hdr1] blk
      by (cases r1) auto
    with own have own': "channel_stream_block chan s1 = (None, sh)" by simp
    then obtain sa sb sc sd where c:
      "lttng_metadata_printf s1 (stream_open_text chan) = (None, sa)"
      "(if ctx_fields chan \<noteq> None then lttng_metadata_printf sa stream_context_open_text
        else (None, sa)) = (None, sb)"
      "lttng_context_metadata_statedump sb (ctx_fields chan) = (None, sc)"
      "(if ctx_fields chan \<noteq> None then lttng_metadata_printf sc stream_context_close_text
        else (None, sc)) = (None, sd)"
      "lttng_metadata_printf sd stream_close_text = (None, sh)"
      unfolding channel_stream_block_chain by blast
    note doc = channel_stream_block_contents [OF inv1 c]
    from own' have own1: "channel_stream_block chan1 s1 = (None, sh)" by (simp add: blk)
    note p = std_sort_result_perm [OF std_sort_sound [of "events chan1" rank2, folded order2]]
    from channel_statedump_events [OF inv1 id1 hdr1 order2 own1 second, unfolded p(3) upd]
    obtain ss rs where t:
      "length ss = length (events chan1) + 1" "length rs = length (events chan1)"
      "ss ! 0 = sh" "ss ! length (events chan1) = s2"
      "content s2 = content sh @
         concat (map (\<lambda>k. written (ss ! k) (ss ! Suc k)) [0..<length (events chan1)])"
      "\<forall>k < length (events chan1).
         ust_metadata_event_statedump (ss ! k) chan1 (events chan1 ! (order2 ! k)) =
           (rs ! k, ss ! Suc k, events chan2 ! (order2 ! k)) \<and>
         content (ss ! Suc k) = content (ss ! k) @ written (ss ! k) (ss ! Suc k) \<and>
         event_outcome chan1 (events chan1 ! (order2 ! k)) (rs ! k)
           (events chan2 ! (order2 ! k)) (written (ss ! k) (ss ! Suc k))"
      by blast
    have each: "\<forall>k < length (events chan1).
         ust_metadata_event_statedump (ss ! k) chan1 (events chan1 ! (order2 ! k)) =
           (rs ! k, ss ! Suc k, events chan2 ! (order2 ! k)) \<and>
         content (ss ! Suc k) = content (ss ! k) @ written (ss ! k) (ss ! Suc k) \<and>
         event_outcome chan1 (events chan1 ! (order2 ! k)) (rs ! k)
           (events chan2 ! (order2 ! k)) (written (ss ! k) (ss ! Suc k)) \<and>
         (event_metadata_dumped (events chan1 ! (order2 ! k)) \<longrightarrow>
            ss ! Suc k = ss ! k \<and>
            events chan2 ! (order2 ! k) = events chan1 ! (order2 ! k))"
    proof (intro allI impI)
      fix k assume k: "k < length (events chan1)"
      with t(6) have r: "ust_metadata_event_statedump (ss ! k) chan1 (events chan1 ! (order2 ! k)) =
           (rs ! k, ss ! Suc k, events chan2 ! (order2 ! k))"
        and rest: "content (ss ! Suc k) = content (ss ! k) @ written (ss ! k) (ss ! Suc k)"
          "event_outcome chan1 (events chan1 ! (order2 ! k)) (rs ! k)
           (events chan2 ! (order2 ! k)) (written (ss ! k) (ss ! Suc k))"
        by blast+
      have "ss ! Suc k = ss ! k \<and> events chan2 ! (order2 ! k) = events chan1 ! (order2 ! k)"
        if "event_metadata_dumped (events chan1 ! (order2 ! k))"
        using r event_statedump_noop [of chan1 "events chan1 ! (order2 ! k)" "ss ! k"] that
        by simp
      with r rest
      show "ust_metadata_event_statedump (ss ! k) chan1 (events chan1 ! (order2 ! k)) =
           (rs ! k, ss ! Suc k, events chan2 ! (order2 ! k)) \<and>
         content (ss ! Suc k) = content (ss ! k) @ written (ss ! k) (ss ! Suc k) \<and>
         event_outcome chan1 (events chan1 ! (order2 ! k)) (rs ! k)
           (events chan2 ! (order2 ! k)) (written (ss ! k) (ss ! Suc k)) \<and>
         (event_metadata_dumped (events chan1 ! (order2 ! k)) \<longrightarrow>
            ss ! Suc k = ss ! k \<and>
            events chan2 ! (order2 ! k) = events chan1 ! (order2 ! k))"
        by blast
    qed
    have quiet: "(\<forall>e \<in> set (events chan1). event_metadata_dumped e) \<longrightarrow>
                 s2 = sh \<and> events chan2 = events chan1 \<and>
                 content s2 = content s1 @ stream_block_text chan (written sb sc)"
    proof
      assume all: "\<forall>e \<in> set (events chan1). event_metadata_dumped e"
      from dump_sorted_events_all_dumped [OF p(4) all]
      have "dump_sorted_events sh chan1 order2 (events chan1) = (sh, events chan1)" .
      with second own1 have "s2 = sh" "events chan2 = events chan1"
        unfolding channel_statedump_unfold [OF id1 hdr1] upd order2 [symmetric] by auto
      with doc show "s2 = sh \<and> events chan2 = events chan1 \<and>
                 content s2 = content s1 @ stream_block_text chan (written sb sc)"
        by simp
    qed
    from t(1-5) each
    have trace: "\<exists>ss rs.
                  length ss = length (events chan1) + 1 \<and> length rs = length (events chan1) \<and>
                  ss ! 0 = sh \<and> ss ! length (events chan1) = s2 \<and>
                  content s2 =
                    content sh @
                    concat (map (\<lambda>k. written (ss ! k) (ss ! Suc k))
                              [0..<length (events chan1)]) \<and>
                  (\<forall>k < length (events chan1).
                     ust_metadata_event_statedump (ss ! k) chan1 (events chan1 ! (order2 ! k)) =
                       (rs ! k, ss ! Suc k, events chan2 ! (order2 ! k)) \<and>
                     content (ss ! Suc k) = content (ss ! k) @ written (ss ! k) (ss ! Suc k) \<and>
                     event_outcome chan1 (events chan1 ! (order2 ! k)) (rs ! k)
                       (events chan2 ! (order2 ! k)) (written (ss ! k) (ss ! Suc k)) \<and>
                     (event_metadata_dumped (events chan1 ! (order2 ! k)) \<longrightarrow>
                        ss ! Suc k = ss ! k \<and>
                        events chan2 ! (order2 ! k) = events chan1 ! (order2 ! k)))"
      by (intro exI [of _ ss] exI [of _ rs]) (simp only: simp_thms)
    show ?thesis
      apply (rule conjI [OF ready])
      apply (rule exI [of _ sa], rule exI [of _ sb], rule exI [of _ sc], rule exI [of _ sd],
          rule exI [of _ sh])
      apply (rule conjI [OF c(1)], rule conjI [OF c(2)], rule conjI [OF c(3)],
          rule conjI [OF c(4)], rule conjI [OF c(5)], rule conjI [OF doc],
          rule conjI [OF trace])
      apply (rule quiet)
      done
  qed
  show ?thesis
    apply (rule conjI)
     apply (rule impI, erule ev)
    apply (rule impI, erule ch)
    done
qed

lemma example_channel_first:
  "fst (ust_metadata_channel_statedump fresh_session example_channel (\<lambda>i. i)) = None \<and>
   (\<forall>e \<in> set (events (snd (snd (ust_metadata_channel_statedump fresh_session example_channel
                                   (\<lambda>i. i))))).
      event_metadata_dumped e) \<and>
   std_sort (\<lambda>i. i)
     (events (snd (snd (ust_metadata_channel_statedump fresh_session example_channel (\<lambda>i. i))))) =
     [1, 2, 0]"
  unfolding example_channel_unfold
  by (simp add: channel_eval dump_eval calm_simps fits_fresh content_fresh
      example_channel_def plain_event_def sort_eval)

lemma example_channel_second:
  "fst (ust_metadata_channel_statedump
          (fst (snd (ust_metadata_channel_statedump fresh_session example_channel (\<lambda>i. i))))
          (snd (snd (ust_metadata_channel_statedump fresh_session example_channel (\<lambda>i. i))))
          (\<lambda>i. i)) = None \<and>
   content (fst (snd (ust_metadata_channel_statedump
          (fst (snd (ust_metadata_channel_statedump fresh_session example_channel (\<lambda>i. i))))
          (snd (snd (ust_metadata_channel_statedump fresh_session example_channel (\<lambda>i. i))))
          (\<lambda>i. i)))) =
   content (fst (snd (ust_metadata_channel_statedump fresh_session example_channel (\<lambda>i. i)))) @
     ''stream {'' @ NL @
     TAB @ ''id = 0;'' @ NL @
     TAB @ ''event.header := struct event_header_compact;'' @ NL @
     TAB @ ''packet.context := struct packet_context;'' @ NL @
     ''};'' @ NL @ NL"
  unfolding example_channel_unfold
  by (simp add: ust_metadata_channel_statedump_def sort_eval
      channel_eval dump_eval calm_simps fits_fresh content_fresh
      example_channel_def plain_event_def)

theorem dump_twice_witness:
  "session_inv fresh_session \<and> chan_id example_channel \<noteq> - 1 \<and>
   fst (ust_metadata_channel_statedump fresh_session example_channel (\<lambda>i. i)) = None \<and>
   std_sort (\<lambda>i. i)
     (events (snd (snd (ust_metadata_channel_statedump fresh_session example_channel (\<lambda>i. i))))) =
     [1, 2, 0] \<and>
   fst (ust_metadata_channel_statedump
          (fst (snd (ust_metadata_channel_statedump fresh_session example_channel (\<lambda>i. i))))
          (snd (snd (ust_metadata_channel_statedump fresh_session example_channel (\<lambda>i. i))))
          (\<lambda>i. i)) = None \<and>
   content (fst (snd (ust_metadata_channel_statedump
          (fst (snd (ust_metadata_channel_statedump fresh_session example_channel (\<lambda>i. i))))
          (snd (snd (ust_metadata_channel_statedump fresh_session example_channel (\<lambda>i. i))))
          (\<lambda>i. i)))) =
   content (fst (snd (ust_metadata_channel_statedump fresh_session example_channel (\<lambda>i. i)))) @
     ''stream {'' @ NL @
     TAB @ ''id = 0;'' @ NL @
     TAB @ ''event.header := struct event_header_compact;'' @ NL @
     TAB @ ''packet.context := struct packet_context;'' @ NL @
     ''};'' @ NL @ NL \<and>
   (\<exists>w. content (fst (snd (ust_metadata_channel_statedump
          (fst (snd (ust_metadata_channel_statedump fresh_session example_channel (\<lambda>i. i))))
          (snd (snd (ust_metadata_channel_statedump fresh_session example_channel (\<lambda>i. i))))
          (\<lambda>i. i)))) =
      content (fst (snd (ust_metadata_channel_statedump fresh_session example_channel
                           (\<lambda>i. i)))) @
        stream_block_text example_channel w) \<and>
   fst (ust_metadata_event_statedump fresh_session ready_channel example_event) = None \<and>
   ust_metadata_event_statedump
     (fst (snd (ust_metadata_event_statedump fresh_session ready_channel example_event)))
     ready_channel
     (snd (snd (ust_metadata_event_statedump fresh_session ready_channel example_event))) =
   (None,
    fst (snd (ust_metadata_event_statedump fresh_session ready_channel example_event)),
    snd (snd (ust_metadata_event_statedump fresh_session ready_channel example_event)))"
proof -
  let ?run1 = "ust_metadata_channel_statedump fresh_session example_channel (\<lambda>i. i)"
  let ?ev1 = "ust_metadata_event_statedump fresh_session ready_channel example_event"
  have inv: "session_inv fresh_session" by (simp add: session_inv_def fresh_session_def)
  have id: "chan_id example_channel \<noteq> - 1" by (simp add: example_channel_def)
  obtain s1 chan1 where run1: "?run1 = (None, s1, chan1)"
    using example_channel_first by (cases ?run1) auto
  with example_channel_first have all: "\<forall>e \<in> set (events chan1). event_metadata_dumped e"
    and ord2: "std_sort (\<lambda>i. i) (events chan1) = [1, 2, 0]"
    by simp_all
  obtain s2 chan2 where run2: "ust_metadata_channel_statedump s1 chan1 (\<lambda>i. i) = (None, s2, chan2)"
    using example_channel_second unfolding run1
    by (cases "ust_metadata_channel_statedump s1 chan1 (\<lambda>i. i)") auto
  have both: "chan_id example_channel \<noteq> - 1 \<and>
      ust_metadata_channel_statedump fresh_session example_channel (\<lambda>i. i) = (None, s1, chan1) \<and>
      [1, 2, 0] = std_sort (\<lambda>i. i) (events chan1) \<and>
      ust_metadata_channel_statedump s1 chan1 (\<lambda>i. i) = (None, s2, chan2)"
    using id run1 ord2 run2 by simp
  note inst = dump_twice [OF inv, of example_channel example_event fresh_session example_event
      "\<lambda>i. i" s1 chan1 "[1, 2, 0]" "\<lambda>i. i" s2 chan2]
  from conjunct2 [OF conjunct2 [OF inst, THEN mp, OF both]]
  obtain sb sc sh where
    "(\<forall>e \<in> set (events chan1). event_metadata_dumped e) \<longrightarrow>
       s2 = sh \<and> events chan2 = events chan1 \<and>
       content s2 = content s1 @ stream_block_text example_channel (written sb sc)"
    by blast
  with all have "content s2 = content s1 @ stream_block_text example_channel (written sb sc)"
    by blast
  hence "\<exists>w. content s2 = content s1 @ stream_block_text example_channel w" ..
  then have chan: "\<exists>w. content (fst (snd (ust_metadata_channel_statedump
          (fst (snd ?run1)) (snd (snd ?run1)) (\<lambda>i. i)))) =
      content (fst (snd ?run1)) @ stream_block_text example_channel w"
    unfolding run1 by (simp only: fst_conv snd_conv run2)
  have ok: "fst ?ev1 = None"
    by (simp add: dump_eval calm_simps fits_fresh ready_channel_def example_event_def
        example_container_def)
  obtain s3 event3 where ev1: "?ev1 = (None, s3, event3)" using ok by (cases ?ev1) auto
  from dump_twice [OF inv, of ready_channel example_event s3 event3] ev1
  have "ust_metadata_event_statedump s3 ready_channel event3 = (None, s3, event3)" by simp
  then have ev: "ust_metadata_event_statedump (fst (snd ?ev1)) ready_channel (snd (snd ?ev1)) =
    (None, fst (snd ?ev1), snd (snd ?ev1))"
    unfolding ev1 by simp
  from inv id example_channel_first example_channel_second chan ok ev show ?thesis by blast
qed

text \<open>
  A channel without events, dumped twice from a fresh session: the stream block is there
  twice.
\<close>

theorem channel_header_repeated_counterexample:
  "fst (ust_metadata_channel_statedump fresh_session empty_channel (\<lambda>i. i)) = None \<and>
   chan_metadata_dumped
     (snd (snd (ust_metadata_channel_statedump fresh_session empty_channel (\<lambda>i. i)))) \<and>
   content (fst (snd (ust_metadata_channel_statedump fresh_session empty_channel (\<lambda>i. i)))) =
     ''stream {'' @ NL @
     TAB @ ''id = 0;'' @ NL @
     TAB @ ''event.header := struct event_header_compact;'' @ NL @
     TAB @ ''packet.context := struct packet_context;'' @ NL @
     ''};'' @ NL @ NL \<and>
   fst (ust_metadata_channel_statedump
          (fst (snd (ust_metadata_channel_statedump fresh_session empty_channel (\<lambda>i. i))))
          (snd (snd (ust_metadata_channel_statedump fresh_session empty_channel (\<lambda>i. i))))
          (\<lambda>i. i)) = None \<and>
   content (fst (snd (ust_metadata_channel_statedump
          (fst (snd (ust_metadata_channel_statedump fresh_session empty_channel (\<lambda>i. i))))
          (snd (snd (ust_metadata_channel_statedump fresh_session empty_channel (\<lambda>i. i))))
          (\<lambda>i. i)))) =
     ''stream {'' @ NL @
     TAB @ ''id = 0;'' @ NL @
     TAB @ ''event.header := struct event_header_compact;'' @ NL @
     TAB @ ''packet.context := struct packet_context;'' @ NL @
     ''};'' @ NL @ NL @
     ''stream {'' @ NL @
     TAB @ ''id = 0;'' @ NL @
     TAB @ ''event.header := struct event_header_compact;'' @ NL @
     TAB @ ''packet.context := struct packet_context;'' @ NL @
     ''};'' @ NL @ NL"
  by (simp add: ust_metadata_channel_statedump_def std_sort_def channel_eval dump_eval
      calm_simps fits_fresh content_fresh empty_channel_def)

section \<open>Errors of the events, and the metadata channel\<close>

text \<open>
  C8. The channel dump drops the result of each event dump: on a channel that is not the
  metadata channel and has a header type, its result is the result of its own emission,
  whatever the dumps of the events return. On a channel with one event whose field list
  holds a structure with a field, the dump of the event alone fails with \<open>EINVAL\<close> after
  it wrote the opening of the block, and the dump of the channel writes the same text
  after the stream block and returns success.
\<close>

theorem channel_statedump_drops_event_results:
  assumes "chan_id chan \<noteq> - 1"
    and "header_type chan \<noteq> LTTNG_UST_CTL_CHANNEL_HEADER_UNKNOWN"
  shows "fst (ust_metadata_channel_statedump s chan rank) = fst (channel_stream_block chan s)"
  unfolding channel_statedump_unfold [OF assms]
  by (simp split: prod.splits option.splits)

theorem channel_statedump_drops_event_results_witness:
  "chan_id struct_channel \<noteq> - 1 \<and>
   header_type struct_channel \<noteq> LTTNG_UST_CTL_CHANNEL_HEADER_UNKNOWN \<and>
   std_sort (\<lambda>i. i) (events struct_channel) = [0] \<and>
   fst (ust_metadata_event_statedump fresh_session
          (struct_channel\<lparr>chan_metadata_dumped := True\<rparr>) struct_event) = Some EINVAL \<and>
   content (fst (snd (ust_metadata_event_statedump fresh_session
          (struct_channel\<lparr>chan_metadata_dumped := True\<rparr>) struct_event))) =
     ''event {'' @ NL @
     TAB @ ''name = '' @ DQUOTE @ ''bad'' @ DQUOTE @ '';'' @ NL @
     TAB @ ''id = 0;'' @ NL @
     TAB @ ''stream_id = 0;'' @ NL @
     TAB @ ''loglevel = 13;'' @ NL @
     TAB @ ''fields := struct {'' @ NL \<and>
   fst (channel_stream_block struct_channel fresh_session) = None \<and>
   fst (ust_metadata_channel_statedump fresh_session struct_channel (\<lambda>i. i)) = None \<and>
   content (fst (snd (ust_metadata_channel_statedump fresh_session struct_channel (\<lambda>i. i)))) =
     ''stream {'' @ NL @
     TAB @ ''id = 0;'' @ NL @
     TAB @ ''event.header := struct event_header_compact;'' @ NL @
     TAB @ ''packet.context := struct packet_context;'' @ NL @
     ''};'' @ NL @ NL @
     ''event {'' @ NL @
     TAB @ ''name = '' @ DQUOTE @ ''bad'' @ DQUOTE @ '';'' @ NL @
     TAB @ ''id = 0;'' @ NL @
     TAB @ ''stream_id = 0;'' @ NL @
     TAB @ ''loglevel = 13;'' @ NL @
     TAB @ ''fields := struct {'' @ NL \<and>
   \<not> event_metadata_dumped
       (hd (events (snd (snd (ust_metadata_channel_statedump fresh_session struct_channel (\<lambda>i. i))))))"
proof -
  have a: "chan_id struct_channel \<noteq> - 1"
    "header_type struct_channel \<noteq> LTTNG_UST_CTL_CHANNEL_HEADER_UNKNOWN"
    by (simp_all add: struct_channel_def)
  have srt: "std_sort (\<lambda>i. i) (events struct_channel) = [0]"
    by (simp add: std_sort_def struct_channel_def)
  have own: "fst (channel_stream_block struct_channel fresh_session) = None"
    by (simp add: channel_eval dump_eval calm_simps fits_fresh struct_channel_def)
  with channel_statedump_drops_event_results [OF a, of fresh_session "\<lambda>i. i"]
  have ok: "fst (ust_metadata_channel_statedump fresh_session struct_channel (\<lambda>i. i)) = None"
    by simp
  have rest: "fst (ust_metadata_event_statedump fresh_session
          (struct_channel\<lparr>chan_metadata_dumped := True\<rparr>) struct_event) = Some EINVAL \<and>
   content (fst (snd (ust_metadata_event_statedump fresh_session
          (struct_channel\<lparr>chan_metadata_dumped := True\<rparr>) struct_event))) =
     ''event {'' @ NL @
     TAB @ ''name = '' @ DQUOTE @ ''bad'' @ DQUOTE @ '';'' @ NL @
     TAB @ ''id = 0;'' @ NL @
     TAB @ ''stream_id = 0;'' @ NL @
     TAB @ ''loglevel = 13;'' @ NL @
     TAB @ ''fields := struct {'' @ NL \<and>
   content (fst (snd (ust_metadata_channel_statedump fresh_session struct_channel (\<lambda>i. i)))) =
     ''stream {'' @ NL @
     TAB @ ''id = 0;'' @ NL @
     TAB @ ''event.header := struct event_header_compact;'' @ NL @
     TAB @ ''packet.context := struct packet_context;'' @ NL @
     ''};'' @ NL @ NL @
     ''event {'' @ NL @
     TAB @ ''name = '' @ DQUOTE @ ''bad'' @ DQUOTE @ '';'' @ NL @
     TAB @ ''id = 0;'' @ NL @
     TAB @ ''stream_id = 0;'' @ NL @
     TAB @ ''loglevel = 13;'' @ NL @
     TAB @ ''fields := struct {'' @ NL \<and>
   \<not> event_metadata_dumped
       (hd (events (snd (snd (ust_metadata_channel_statedump fresh_session struct_channel (\<lambda>i. i))))))"
    by (simp add: ust_metadata_channel_statedump_def std_sort_def channel_eval dump_eval
      dump_struct_def calm_simps fits_fresh content_fresh struct_channel_def struct_event_def)
  from a srt own ok rest show ?thesis by blast
qed

text \<open>
  C10. On the internal metadata channel, whose id is the all-ones value, the dump of an
  event and the dump of the channel return success and leave the session, the event and
  the channel as they are: nothing is written and no flag changes.
\<close>

theorem metadata_channel_untouched:
  assumes "chan_id chan = - 1"
  shows "ust_metadata_event_statedump s chan event = (None, s, event) \<and>
         ust_metadata_channel_statedump s chan rank = (None, s, chan)"
  using assms by (simp add: event_statedump_noop channel_statedump_skip)

theorem metadata_channel_untouched_witness:
  "chan_id metadata_channel = - 1 \<and> unat (chan_id metadata_channel) = 4294967295 \<and>
   ust_metadata_event_statedump fresh_session metadata_channel example_event =
     (None, fresh_session, example_event) \<and>
   ust_metadata_channel_statedump fresh_session metadata_channel (\<lambda>i. i) =
     (None, fresh_session, metadata_channel)"
proof -
  have id: "chan_id metadata_channel = - 1" by (simp add: metadata_channel_def)
  have "unat (chan_id metadata_channel) = 4294967295"
    by (simp add: metadata_channel_def unsigned_minus_1_eq_mask mask_eq_exp_minus_1)
  with id metadata_channel_untouched [OF id, of fresh_session example_event "\<lambda>i. i"]
  show ?thesis by simp
qed

section \<open>The failures of the walker\<close>

lemma variant_choices_walk_times:
  "variant_choices s i nr flds it nesting = walk_times (nr - i) s flds it (nesting + 1)"
proof (induction "nr - i" arbitrary: s i it)
  case 0
  then show ?case by (subst variant_choices.simps) simp
next
  case (Suc k)
  then have lt: "i < nr" and k: "k = nr - (i + 1)" and d: "nr - i = Suc k" by simp_all
  show ?case
  proof (cases "length flds \<le> it")
    case True
    with lt show ?thesis
      unfolding d by (subst variant_choices.simps) (simp add: field_statedump_overflow)
  next
    case False
    obtain r s1 it1 where w: "lttng_field_statedump s flds it (nesting + 1) = (r, s1, it1)"
      by (cases "lttng_field_statedump s flds it (nesting + 1)")
    show ?thesis
    proof (cases r)
      case None
      with w lt False Suc.hyps(1) [OF k, of s1 it1] show ?thesis
        unfolding d by (subst variant_choices.simps) (simp add: k)
    next
      case (Some e)
      with w lt False show ?thesis
        unfolding d by (subst variant_choices.simps) simp
    qed
  qed
qed

lemma variant_statedump_walk_times:
  "lttng_variant_statedump s nr tag al flds it nesting =
     (case variant_header tag al (field_name (flds ! it)) nesting s of
        (Some e, s1) \<Rightarrow> (Some e, s1, it + 1)
      | (None, s1) \<Rightarrow>
          (case walk_times nr s1 flds (it + 1) (nesting + 1) of
             (Some e, s2, it2) \<Rightarrow> (Some e, s2, it2)
           | (None, s2, it2) \<Rightarrow>
               (let (r, s3) = variant_footer (field_name (flds ! it)) nesting s2
                in (r, s3, it2))))"
proof -
  have "variant_choices s1 0 nr flds (it + 1) nesting =
          walk_times nr s1 flds (it + 1) (nesting + 1)" for s1
    using variant_choices_walk_times [of s1 0 nr flds "it + 1" nesting] by simp
  then show ?thesis unfolding variant_statedump_unfold by (simp only:)
qed

lemma variant_at_walker:
  "variant_at flds it nr tag al \<Longrightarrow>
   lttng_field_statedump s flds it nesting = lttng_variant_statedump s nr tag al flds it nesting"
  by (auto simp: variant_at_def field_statedump_unfold)

lemma out_of_slots_overflow:
  assumes "out_of_slots flds it"
  shows "\<exists>it'. lttng_field_statedump s flds it nesting = (Some EOVERFLOW, s, it') \<and>
           it \<le> it' \<and> it' \<le> it + 1"
proof (cases "length flds \<le> it")
  case True
  then show ?thesis by (simp add: field_statedump_overflow)
next
  case False
  then have lt: "it < length flds" by simp
  with assms have n: "needs_next_slot (field_type (flds ! it))" and e: "length flds \<le> it + 1"
    by (simp_all add: out_of_slots_def)
  from n e show ?thesis
    unfolding field_statedump_unfold [OF lt]
    by (cases "field_type (flds ! it)")
      (simp_all add: needs_next_slot_def dump_array_nestable_def dump_sequence_nestable_def
        dump_enum_nestable_def)
qed

lemma unsupported_shape_invalid:
  assumes "unsupported_shape flds it"
  shows "\<exists>it'. lttng_field_statedump s flds it nesting = (Some EINVAL, s, it') \<and>
           it \<le> it' \<and> it' \<le> it + 1"
proof -
  from assms have lt: "it < length flds" by (simp add: unsupported_shape_def)
  from assms show ?thesis
    unfolding field_statedump_unfold [OF lt]
    by (cases "field_type (flds ! it)"; cases "field_type (flds ! (it + 1))")
      (simp_all add: unsupported_shape_def integer_slot_def dump_array_nestable_def
        dump_sequence_nestable_def dump_enum_nestable_def dump_struct_def
        dump_struct_nestable_def)
qed

lemma unsupported_element_invalid:
  assumes "unsupported_element flds it"
  shows "lttng_field_statedump s flds it nesting =
           (case print_tabs s nesting of
              (Some e, s1) \<Rightarrow> (Some e, s1, it)
            | (None, s1) \<Rightarrow> (Some EINVAL, s1, it))"
proof -
  from assms have lt: "it < length flds" by (simp add: unsupported_element_def)
  from assms show ?thesis
    unfolding field_statedump_unfold [OF lt]
    by (cases "field_type (flds ! it)")
      (auto simp: unsupported_element_def integer_element_def dump_array_def dump_sequence_def
        split: lttng_ust_ctl_basic_type.splits option.splits prod.splits)
qed

lemma short_variant_fails:
  assumes v: "variant_at flds it nr tag al" and short: "length flds - (it + 1) < nr"
  shows "fst (lttng_field_statedump s flds it nesting) \<noteq> None"
proof
  assume "fst (lttng_field_statedump s flds it nesting) = None"
  then obtain s' it' where "lttng_field_statedump s flds it nesting = (None, s', it')"
    by (cases "lttng_field_statedump s flds it nesting") auto
  then have run: "lttng_variant_statedump s nr tag al flds it nesting = (None, s', it')"
    by (simp add: variant_at_walker [OF v])
  from v have lt: "it < length flds" by (simp add: variant_at_def)
  note eq = run [unfolded variant_statedump_unfold]
  obtain r1 s1 where h: "variant_header tag al (field_name (flds ! it)) nesting s = (r1, s1)"
    by (cases "variant_header tag al (field_name (flds ! it)) nesting s")
  obtain r2 s2 it2 where c: "variant_choices s1 0 nr flds (it + 1) nesting = (r2, s2, it2)"
    by (cases "variant_choices s1 0 nr flds (it + 1) nesting")
  from eq h c have "r1 = None" "r2 = None"
    by (auto split: option.splits prod.splits)
  with walker_advance(3) [OF c] have "it + 1 + nr \<le> it2" "it2 \<le> max (it + 1) (length flds)"
    by simp_all
  with lt short show False by simp
qed

lemma variant_one_descriptor:
  assumes v: "variant_at flds it nr tag al" and nr: "1 < nr" and len: "length flds = it + 2"
    and h: "variant_header tag al (field_name (flds ! it)) nesting s = (None, s1)"
    and w: "lttng_field_statedump s1 flds (it + 1) (nesting + 1) = (None, s2, it2)"
  shows "lttng_field_statedump s flds it nesting = (Some EOVERFLOW, s2, it + 2)"
proof -
  from walker_advance(1) [OF w] len have it2: "it2 = it + 2" by simp
  from nr obtain k where k: "nr = Suc (Suc k)" by (cases nr; cases "nr - 1") auto
  have "walk_times nr s1 flds (it + 1) (nesting + 1) = (Some EOVERFLOW, s2, it + 2)"
    unfolding k using w it2 len by (simp add: field_statedump_overflow)
  then show ?thesis
    unfolding variant_at_walker [OF v] variant_statedump_walk_times using h by simp
qed

lemma short_variant_header:
  "fst (variant_header ''tag'' 0 ''v'' 0 fresh_session) = None \<and>
   fst (lttng_field_statedump (snd (variant_header ''tag'' 0 ''v'' 0 fresh_session))
          short_variant 1 1) = None \<and>
   content (fst (snd (lttng_field_statedump (snd (variant_header ''tag'' 0 ''v'' 0 fresh_session))
          short_variant 1 1))) =
     ''variant <_tag> {'' @ NL @
     TAB @ ''integer { size = 32; align = 8; signed = 0; encoding = none; base = 10; } _x;'' @ NL"
  by (simp add: variant_header_def sanitize_ctf_identifier_def dump_eval calm_simps fits_fresh
      content_fresh short_variant_def example_container_def)

text \<open>
  C7. The two kinds of failure of the walker. Out of slots (the cursor at the end of the
  list, or a nestable array, sequence or enumeration in the last slot): \<open>EOVERFLOW\<close>, the
  session untouched. An unsupported shape (a structure that declares fields, an unknown
  tag, a next slot that does not hold an integer): \<open>EINVAL\<close>, the session untouched. A
  legacy array or sequence with an element that is not an integer: \<open>EINVAL\<close> once the
  indentation is printed, the error of the indentation otherwise. A variant takes its own
  slot, prints its opening, calls the walker once for each choice from the next slot on,
  up to the first failure, and prints its close; with fewer descriptors left than choices
  it fails, and with one descriptor left, dumped with success, and more than one choice
  it fails with \<open>EOVERFLOW\<close>.
\<close>

theorem walker_failure_kinds:
  "(out_of_slots flds it \<longrightarrow>
      (\<exists>it'. lttng_field_statedump s flds it nesting = (Some EOVERFLOW, s, it') \<and>
             it \<le> it' \<and> it' \<le> it + 1)) \<and>
   (unsupported_shape flds it \<longrightarrow>
      (\<exists>it'. lttng_field_statedump s flds it nesting = (Some EINVAL, s, it') \<and>
             it \<le> it' \<and> it' \<le> it + 1)) \<and>
   (unsupported_element flds it \<longrightarrow>
      lttng_field_statedump s flds it nesting =
        (case print_tabs s nesting of
           (Some e, s1) \<Rightarrow> (Some e, s1, it)
         | (None, s1) \<Rightarrow> (Some EINVAL, s1, it))) \<and>
   (variant_at flds it nr tag al \<longrightarrow>
      lttng_field_statedump s flds it nesting =
        (case variant_header tag al (field_name (flds ! it)) nesting s of
           (Some e, s1) \<Rightarrow> (Some e, s1, it + 1)
         | (None, s1) \<Rightarrow>
             (case walk_times nr s1 flds (it + 1) (nesting + 1) of
                (Some e, s2, it2) \<Rightarrow> (Some e, s2, it2)
              | (None, s2, it2) \<Rightarrow>
                  (let (r, s3) = variant_footer (field_name (flds ! it)) nesting s2
                   in (r, s3, it2)))) \<and>
      (length flds - (it + 1) < nr \<longrightarrow>
         fst (lttng_field_statedump s flds it nesting) \<noteq> None) \<and>
      (1 < nr \<and> length flds = it + 2 \<and>
       variant_header tag al (field_name (flds ! it)) nesting s = (None, s1) \<and>
       lttng_field_statedump s1 flds (it + 1) (nesting + 1) = (None, s2, it2) \<longrightarrow>
         lttng_field_statedump s flds it nesting = (Some EOVERFLOW, s2, it + 2)))"
proof (intro conjI impI)
  assume "out_of_slots flds it"
  then show "\<exists>it'. lttng_field_statedump s flds it nesting = (Some EOVERFLOW, s, it') \<and>
             it \<le> it' \<and> it' \<le> it + 1"
    by (rule out_of_slots_overflow)
next
  assume "unsupported_shape flds it"
  then show "\<exists>it'. lttng_field_statedump s flds it nesting = (Some EINVAL, s, it') \<and>
             it \<le> it' \<and> it' \<le> it + 1"
    by (rule unsupported_shape_invalid)
next
  assume "unsupported_element flds it"
  then show "lttng_field_statedump s flds it nesting =
        (case print_tabs s nesting of
           (Some e, s1) \<Rightarrow> (Some e, s1, it)
         | (None, s1) \<Rightarrow> (Some EINVAL, s1, it))"
    by (rule unsupported_element_invalid)
next
  assume v: "variant_at flds it nr tag al"
  show "lttng_field_statedump s flds it nesting =
        (case variant_header tag al (field_name (flds ! it)) nesting s of
           (Some e, s1) \<Rightarrow> (Some e, s1, it + 1)
         | (None, s1) \<Rightarrow>
             (case walk_times nr s1 flds (it + 1) (nesting + 1) of
                (Some e, s2, it2) \<Rightarrow> (Some e, s2, it2)
              | (None, s2, it2) \<Rightarrow>
                  (let (r, s3) = variant_footer (field_name (flds ! it)) nesting s2
                   in (r, s3, it2))))"
    unfolding variant_at_walker [OF v] by (rule variant_statedump_walk_times)
next
  assume "variant_at flds it nr tag al" and "length flds - (it + 1) < nr"
  then show "fst (lttng_field_statedump s flds it nesting) \<noteq> None"
    by (rule short_variant_fails)
next
  assume v: "variant_at flds it nr tag al"
    and a: "1 < nr \<and> length flds = it + 2 \<and>
       variant_header tag al (field_name (flds ! it)) nesting s = (None, s1) \<and>
       lttng_field_statedump s1 flds (it + 1) (nesting + 1) = (None, s2, it2)"
  from a have "1 < nr" "length flds = it + 2"
    "variant_header tag al (field_name (flds ! it)) nesting s = (None, s1)"
    "lttng_field_statedump s1 flds (it + 1) (nesting + 1) = (None, s2, it2)"
    by simp_all
  with v show "lttng_field_statedump s flds it nesting = (Some EOVERFLOW, s2, it + 2)"
    by (rule variant_one_descriptor)
qed

theorem walker_failure_kinds_witness:
  "variant_at short_variant 0 3 ''tag'' 0 \<and> length short_variant = 0 + 2 \<and>
   fst (variant_header ''tag'' 0 ''v'' 0 fresh_session) = None \<and>
   fst (lttng_field_statedump (snd (variant_header ''tag'' 0 ''v'' 0 fresh_session))
          short_variant 1 1) = None \<and>
   fst (lttng_field_statedump fresh_session short_variant 0 0) = Some EOVERFLOW \<and>
   snd (snd (lttng_field_statedump fresh_session short_variant 0 0)) = 2 \<and>
   content (fst (snd (lttng_field_statedump fresh_session short_variant 0 0))) =
     ''variant <_tag> {'' @ NL @
     TAB @ ''integer { size = 32; align = 8; signed = 0; encoding = none; base = 10; } _x;'' @ NL \<and>
   unsupported_shape (ev_fields struct_event) 0 \<and>
   fst (lttng_field_statedump fresh_session (ev_fields struct_event) 0 2) = Some EINVAL \<and>
   out_of_slots (ev_fields struct_event) 1 \<and>
   fst (lttng_field_statedump fresh_session (ev_fields struct_event) 1 2) = Some EOVERFLOW \<and>
   unsupported_element
     [\<lparr>field_name = ''a'',
       field_type = lttng_ust_ctl_atype_array (basic_string lttng_ust_ctl_encode_UTF8) 4\<rparr>] 0 \<and>
   fst (lttng_field_statedump fresh_session
     [\<lparr>field_name = ''a'',
       field_type = lttng_ust_ctl_atype_array (basic_string lttng_ust_ctl_encode_UTF8) 4\<rparr>] 0 0)
     = Some EINVAL"
proof -
  let ?h = "variant_header ''tag'' 0 ''v'' 0 fresh_session"
  let ?w = "lttng_field_statedump (snd ?h) short_variant 1 1"
  let ?arr = "[\<lparr>field_name = ''a'',
       field_type = lttng_ust_ctl_atype_array (basic_string lttng_ust_ctl_encode_UTF8) 4\<rparr>]"
  have v: "variant_at short_variant 0 3 ''tag'' 0"
    by (simp add: variant_at_def short_variant_def)
  have len: "length short_variant = 0 + 2" by (simp add: short_variant_def)
  have nm: "field_name (short_variant ! 0) = ''v''" by (simp add: short_variant_def)
  from short_variant_header have h: "?h = (None, snd ?h)" by (cases ?h) auto
  from short_variant_header have w: "?w = (None, fst (snd ?w), snd (snd ?w))"
    by (cases ?w) auto
  have pre: "1 < (3::nat) \<and> length short_variant = 0 + 2 \<and>
       variant_header ''tag'' 0 (field_name (short_variant ! 0)) 0 fresh_session = (None, snd ?h) \<and>
       lttng_field_statedump (snd ?h) short_variant (0 + 1) (0 + 1) =
         (None, fst (snd ?w), snd (snd ?w))"
    using len h w unfolding nm by simp
  from walker_failure_kinds [of short_variant 0 fresh_session 0 3 "''tag''" 0 "snd ?h"
      "fst (snd ?w)" "snd (snd ?w)"] v pre
  have run: "lttng_field_statedump fresh_session short_variant 0 0 =
               (Some EOVERFLOW, fst (snd ?w), 0 + 2)"
    by blast
  have shape: "unsupported_shape (ev_fields struct_event) 0"
    by (simp add: unsupported_shape_def struct_event_def)
  from walker_failure_kinds [of "ev_fields struct_event" 0 fresh_session 2 0 "[]" 0
      fresh_session fresh_session 0] shape
  have "\<exists>it'. lttng_field_statedump fresh_session (ev_fields struct_event) 0 2 =
          (Some EINVAL, fresh_session, it') \<and> 0 \<le> it' \<and> it' \<le> 0 + 1"
    by blast
  then have inval:
    "fst (lttng_field_statedump fresh_session (ev_fields struct_event) 0 2) = Some EINVAL"
    by auto
  have slots: "out_of_slots (ev_fields struct_event) 1"
    by (simp add: out_of_slots_def struct_event_def)
  from walker_failure_kinds [of "ev_fields struct_event" 1 fresh_session 2 0 "[]" 0
      fresh_session fresh_session 0] slots
  have "\<exists>it'. lttng_field_statedump fresh_session (ev_fields struct_event) 1 2 =
          (Some EOVERFLOW, fresh_session, it') \<and> 1 \<le> it' \<and> it' \<le> 1 + 1"
    by blast
  then have over:
    "fst (lttng_field_statedump fresh_session (ev_fields struct_event) 1 2) = Some EOVERFLOW"
    by auto
  have elem: "unsupported_element ?arr 0"
    by (simp add: unsupported_element_def integer_element_def)
  from walker_failure_kinds [of ?arr 0 fresh_session 0 0 "[]" 0
      fresh_session fresh_session 0] elem
  have "lttng_field_statedump fresh_session ?arr 0 0 =
        (case print_tabs fresh_session 0 of
           (Some e, s1) \<Rightarrow> (Some e, s1, 0)
         | (None, s1) \<Rightarrow> (Some EINVAL, s1, 0))"
    by blast
  then have arr: "fst (lttng_field_statedump fresh_session ?arr 0 0) = Some EINVAL" by simp
  from v len short_variant_header run shape inval slots over elem arr show ?thesis
    by simp
qed

end
